theory Spec2Isabelle
  imports Complex_Main "HOL-Library.Word"
begin

section \<open>PinPortrait: the grid of cubes and the per-frame sampler of sketch.js\<close>

text \<open>
  The embedding follows \<^verbatim>\<open>src/javascript/sketch.js\<close>: \<^verbatim>\<open>setupColors\<close>,
  \<^verbatim>\<open>reset\<close>, \<^verbatim>\<open>setupCubes\<close>, \<^verbatim>\<open>pixelate\<close> and \<^verbatim>\<open>getAverage\<close>.
  The script's global variables are the fields of the record \<open>globals\<close>; the constant
  \<^verbatim>\<open>size\<close> (8 in the source) is passed to every function as the parameter \<open>sz\<close>, which
  stands for a positive integer below \<open>2 ^ 53\<close>.
\<close>

subsection \<open>Rounding to binary64\<close>

text \<open>
  JavaScript numbers are IEEE 754 binary64 values and every arithmetic operation rounds
  its exact result to the nearest such value, ties to the even significand. \<open>rne\<close> rounds
  a rational to the nearest integer, ties to even. \<open>fl\<close> rounds a non-negative rational:
  it scales the number by powers of two until it lies in \<open>[2 ^ 52, 2 ^ 53)\<close> (stopping at
  the exponent \<open>-1074\<close> of the subnormal numbers), rounds it to an integer there and
  scales back.
\<close>

definition rne :: "rat \<Rightarrow> int" where
  "rne x =
     (let f = \<lfloor>x\<rfloor>; d = x - of_int f
      in if d < 1 / 2 then f else if 1 / 2 < d then f + 1 else if even f then f else f + 1)"

function fl_up :: "rat \<Rightarrow> nat \<Rightarrow> rat" where
  "fl_up q j = (if q < 2 ^ 52 \<and> j < 1074 then fl_up (2 * q) (j + 1) else of_int (rne q) / 2 ^ j)"
  by pat_completeness auto
termination
  by (relation "measure (\<lambda>(q, j). 1074 - j)") auto

declare fl_up.simps [simp del]

function fl_down :: "rat \<Rightarrow> nat \<Rightarrow> rat" where
  "fl_down q j = (if 2 ^ 53 \<le> q then fl_down (q / 2) (j + 1) else of_int (rne q) * 2 ^ j)"
  by pat_completeness auto
termination
proof (relation "measure (\<lambda>(q, j). nat \<lceil>q\<rceil>)")
  show "wf (measure (\<lambda>(q, j). nat \<lceil>q\<rceil>))" by simp
next
  fix q :: rat and j :: nat
  assume q: "2 ^ 53 \<le> q"
  then have "\<lceil>q / 2\<rceil> < \<lceil>q\<rceil>" by (simp add: ceiling_less_iff) linarith
  moreover from q have "0 < \<lceil>q\<rceil>" by (simp add: less_ceiling_iff)
  ultimately show "((q / 2, j + 1), (q, j)) \<in> measure (\<lambda>(q, j). nat \<lceil>q\<rceil>)" by simp
qed

declare fl_down.simps [simp del]

definition fl :: "rat \<Rightarrow> rat" where
  "fl q = (if 2 ^ 53 \<le> q then fl_down q 0 else fl_up q 0)"

subsection \<open>JavaScript numbers\<close>

text \<open>
  A number is \<open>NaN\<close>, an infinity, or a finite value \<open>Num q\<close>, where \<open>q\<close> is the rational
  the double stands for. \<open>to_double\<close> turns the exact result of an operation into a
  number: it rounds with \<open>fl\<close>, and a result that rounds to \<open>2 ^ 1024\<close> or beyond overflows
  to an infinity. The negative zero is not told apart from zero: it would differ only as
  a divisor, and no operation of the script yields a negative number.
\<close>

datatype jsnum = NaN | PInf | NInf | Num rat

definition to_double :: "rat \<Rightarrow> jsnum" where
  "to_double q =
     (if 0 \<le> q then (if 2 ^ 1024 \<le> fl q then PInf else Num (fl q))
      else (if 2 ^ 1024 \<le> fl (- q) then NInf else Num (- fl (- q))))"

text \<open>A decimal literal of the source is the double nearest to it.\<close>

definition js_literal :: "rat \<Rightarrow> jsnum" where
  "js_literal q = to_double q"

fun js_add :: "jsnum \<Rightarrow> jsnum \<Rightarrow> jsnum" where
  "js_add (Num a) (Num b) = to_double (a + b)"
| "js_add NaN _ = NaN"
| "js_add _ NaN = NaN"
| "js_add PInf NInf = NaN"
| "js_add NInf PInf = NaN"
| "js_add PInf _ = PInf"
| "js_add _ PInf = PInf"
| "js_add NInf _ = NInf"
| "js_add _ NInf = NInf"

fun js_mul :: "jsnum \<Rightarrow> jsnum \<Rightarrow> jsnum" where
  "js_mul (Num a) (Num b) = to_double (a * b)"
| "js_mul NaN _ = NaN"
| "js_mul _ NaN = NaN"
| "js_mul PInf (Num b) = (if b = 0 then NaN else if 0 < b then PInf else NInf)"
| "js_mul NInf (Num b) = (if b = 0 then NaN else if 0 < b then NInf else PInf)"
| "js_mul (Num a) PInf = (if a = 0 then NaN else if 0 < a then PInf else NInf)"
| "js_mul (Num a) NInf = (if a = 0 then NaN else if 0 < a then NInf else PInf)"
| "js_mul PInf PInf = PInf"
| "js_mul PInf NInf = NInf"
| "js_mul NInf PInf = NInf"
| "js_mul NInf NInf = PInf"

fun js_div :: "jsnum \<Rightarrow> jsnum \<Rightarrow> jsnum" where
  "js_div (Num a) (Num b) =
     (if b = 0 then (if a = 0 then NaN else if 0 < a then PInf else NInf)
      else to_double (a / b))"
| "js_div NaN _ = NaN"
| "js_div _ NaN = NaN"
| "js_div (Num a) PInf = Num 0"
| "js_div (Num a) NInf = Num 0"
| "js_div PInf (Num b) = (if 0 \<le> b then PInf else NInf)"
| "js_div NInf (Num b) = (if 0 \<le> b then NInf else PInf)"
| "js_div PInf PInf = NaN"
| "js_div PInf NInf = NaN"
| "js_div NInf PInf = NaN"
| "js_div NInf NInf = NaN"

fun isNaN :: "jsnum \<Rightarrow> bool" where
  "isNaN NaN = True"
| "isNaN PInf = False"
| "isNaN NInf = False"
| "isNaN (Num a) = False"

fun js_less :: "jsnum \<Rightarrow> jsnum \<Rightarrow> bool" where
  "js_less (Num a) (Num b) = (a < b)"
| "js_less NaN _ = False"
| "js_less _ NaN = False"
| "js_less PInf _ = False"
| "js_less _ NInf = False"
| "js_less _ PInf = True"
| "js_less NInf _ = True"

fun js_le :: "jsnum \<Rightarrow> jsnum \<Rightarrow> bool" where
  "js_le (Num a) (Num b) = (a \<le> b)"
| "js_le NaN _ = False"
| "js_le _ NaN = False"
| "js_le _ PInf = True"
| "js_le NInf _ = True"
| "js_le PInf _ = False"
| "js_le _ NInf = False"

text \<open>
  \<^verbatim>\<open>Math.round\<close> gives the integer nearest to its argument, halves upwards; the result
  of rounding a double is a double, so nothing is rounded a second time.
\<close>

fun js_round :: "jsnum \<Rightarrow> jsnum" where
  "js_round (Num a) = Num (of_int \<lfloor>a + 1 / 2\<rfloor>)"
| "js_round NaN = NaN"
| "js_round PInf = PInf"
| "js_round NInf = NInf"

subsection \<open>The pixel buffer\<close>

text \<open>
  \<^verbatim>\<open>imageData.data\<close> is a \<^verbatim>\<open>Uint8ClampedArray\<close>: a list of bytes. Reading it at an index
  that is not one of \<open>0, \<dots>, length - 1\<close> gives \<^verbatim>\<open>undefined\<close> (here \<open>None\<close>) and raises
  nothing; \<^verbatim>\<open>r += undefined\<close> converts \<^verbatim>\<open>undefined\<close> to \<open>NaN\<close>.
\<close>

type_synonym pixel_data = "8 word list"

definition array_get :: "pixel_data \<Rightarrow> int \<Rightarrow> 8 word option" where
  "array_get pixels i =
     (if 0 \<le> i \<and> i < int (length pixels) then Some (pixels ! nat i) else None)"

fun to_number :: "8 word option \<Rightarrow> jsnum" where
  "to_number None = NaN"
| "to_number (Some v) = Num (of_nat (unat v))"

subsection \<open>getAverage\<close>

type_synonym rgb_sums = "jsnum \<times> jsnum \<times> jsnum"

text \<open>The body of the inner loop: one pixel added to the three running sums.\<close>

definition add_pixel :: "nat \<Rightarrow> pixel_data \<Rightarrow> int \<Rightarrow> int \<Rightarrow> rgb_sums \<Rightarrow> rgb_sums" where
  "add_pixel W pixels x y acc =
     (case acc of (r, g, b) \<Rightarrow>
        (let index = (x + int W * y) * 4
         in (js_add r (to_number (array_get pixels index)),
             js_add g (to_number (array_get pixels (index + 1))),
             js_add b (to_number (array_get pixels (index + 2))))))"

text \<open>\<^verbatim>\<open>for (let y = y0; y < y0 + size; y += 1)\<close>\<close>

function getAverage_ys :: "nat \<Rightarrow> nat \<Rightarrow> pixel_data \<Rightarrow> int \<Rightarrow> int \<Rightarrow> int \<Rightarrow> rgb_sums \<Rightarrow> rgb_sums" where
  "getAverage_ys sz W pixels x y0 y acc =
     (if y < y0 + int sz
      then getAverage_ys sz W pixels x y0 (y + 1) (add_pixel W pixels x y acc)
      else acc)"
  by pat_completeness auto
termination
  by (relation "measure (\<lambda>(sz, W, pixels, x, y0, y, acc). nat (y0 + int sz - y))") auto

declare getAverage_ys.simps [simp del]

text \<open>\<^verbatim>\<open>for (let x = x0; x < x0 + size; x += 1)\<close>\<close>

function getAverage_xs :: "nat \<Rightarrow> nat \<Rightarrow> pixel_data \<Rightarrow> int \<Rightarrow> int \<Rightarrow> int \<Rightarrow> rgb_sums \<Rightarrow> rgb_sums" where
  "getAverage_xs sz W pixels x0 y0 x acc =
     (if x < x0 + int sz
      then getAverage_xs sz W pixels x0 y0 (x + 1) (getAverage_ys sz W pixels x y0 y0 acc)
      else acc)"
  by pat_completeness auto
termination
  by (relation "measure (\<lambda>(sz, W, pixels, x0, y0, x, acc). nat (x0 + int sz - x))") auto

declare getAverage_xs.simps [simp del]

text \<open>
  The local \<^verbatim>\<open>val\<close> of \<^verbatim>\<open>getAverage\<close>:
  \<^verbatim>\<open>(0.2126 * r + 0.7152 * g + 0.0722 * b) / (size * size)\<close>, every operation a double operation.
\<close>

definition getAverage_val :: "nat \<Rightarrow> nat \<Rightarrow> pixel_data \<Rightarrow> int \<Rightarrow> int \<Rightarrow> jsnum" where
  "getAverage_val sz W pixels x0 y0 =
     (case getAverage_xs sz W pixels x0 y0 x0 (Num 0, Num 0, Num 0) of (r, g, b) \<Rightarrow>
        js_div
          (js_add
             (js_add (js_mul (js_literal (2126 / 10000)) r) (js_mul (js_literal (7152 / 10000)) g))
             (js_mul (js_literal (722 / 10000)) b))
          (js_mul (Num (of_nat sz)) (Num (of_nat sz))))"

definition getAverage :: "nat \<Rightarrow> nat \<Rightarrow> pixel_data \<Rightarrow> int \<Rightarrow> int \<Rightarrow> jsnum" where
  "getAverage sz W pixels x0 y0 =
     (let val = getAverage_val sz W pixels x0 y0 in if isNaN val then Num 1 else val)"

subsection \<open>The colour table\<close>

text \<open>\<^verbatim>\<open>new THREE.Color(`rgb(${i}, ${i}, ${i})`)\<close>, kept as its three components.\<close>

datatype three_color = Rgb nat nat nat

type_synonym color_table = "jsnum \<rightharpoonup> three_color"

function setupColors_loop :: "nat \<Rightarrow> color_table \<Rightarrow> color_table" where
  "setupColors_loop i m =
     (if i < 256 then setupColors_loop (i + 1) (m(Num (of_nat i) \<mapsto> Rgb i i i)) else m)"
  by pat_completeness auto
termination
  by (relation "measure (\<lambda>(i, m). 256 - i)") auto

declare setupColors_loop.simps [simp del]

definition setupColors :: color_table where
  "setupColors = setupColors_loop 0 Map.empty"

subsection \<open>Cubes\<close>

text \<open>
  A \<^verbatim>\<open>THREE.Mesh\<close>, as far as the script touches it: \<^verbatim>\<open>position.x\<close>, \<^verbatim>\<open>position.y\<close>
  (the loop counters of \<^verbatim>\<open>setupCubes\<close>), \<^verbatim>\<open>position.z\<close>, \<^verbatim>\<open>scale.z\<close> and
  \<^verbatim>\<open>material.color\<close> (\<open>None\<close> is \<^verbatim>\<open>undefined\<close>, what \<^verbatim>\<open>colors.get\<close> returns for a
  key that is not in the table).
\<close>

record cube =
  position_x :: nat
  position_y :: nat
  position_z :: jsnum
  scale_z :: jsnum
  material_color :: "three_color option"

definition new_cube :: "nat \<Rightarrow> nat \<Rightarrow> cube" where
  "new_cube x y =
     \<lparr>position_x = x, position_y = y, position_z = Num 0, scale_z = Num 1,
      material_color = Some (Rgb 128 128 128)\<rparr>"

text \<open>
  The two loops of \<^verbatim>\<open>setupCubes\<close>. Their bounds are numbers: with an infinite bound
  (\<^verbatim>\<open>size\<close> zero) a loop never ends, so the loops are partial functions and \<open>None\<close>
  stands for a run that does not return.

  \<^verbatim>\<open>for (let y = 0; y < nrOfCubesY; y++)\<close>
\<close>

partial_function (option) setupCubes_ys :: "jsnum \<Rightarrow> nat \<Rightarrow> nat \<Rightarrow> cube list \<Rightarrow> cube list option" where
  "setupCubes_ys ny x y cs =
     (if js_less (Num (of_nat y)) ny
      then setupCubes_ys ny x (y + 1) (cs @ [new_cube x y]) else Some cs)"

text \<open>\<^verbatim>\<open>for (let x = 0; x < nrOfCubesX; x++)\<close>\<close>

partial_function (option) setupCubes_xs :: "jsnum \<Rightarrow> jsnum \<Rightarrow> nat \<Rightarrow> cube list \<Rightarrow> cube list option" where
  "setupCubes_xs nx ny x cs =
     (if js_less (Num (of_nat x)) nx
      then Option.bind (setupCubes_ys ny x 0 cs) (\<lambda>cs'. setupCubes_xs nx ny (x + 1) cs')
      else Some cs)"

subsection \<open>The 2D canvas\<close>

text \<open>
  The canvas of the page, as far as \<^verbatim>\<open>reset\<close> and \<^verbatim>\<open>pixelate\<close> use it: its size, its
  bitmap (RGBA bytes, row by row) and the fill style of its 2D context. The three
  operations follow the HTML standard: assigning \<^verbatim>\<open>canvas.width\<close> or \<^verbatim>\<open>canvas.height\<close>
  clears the bitmap to transparent black and resets the context; \<^verbatim>\<open>getImageData\<close>
  copies a rectangle of the bitmap (transparent black outside the canvas) and throws an
  \<^verbatim>\<open>IndexSizeError\<close> for a rectangle of width or height zero; \<^verbatim>\<open>fillRect\<close> paints the
  part of a rectangle that lies on the canvas in the fill style.
\<close>

record canvas2d =
  canvas_width :: nat
  canvas_height :: nat
  fillStyle :: string
  bitmap :: pixel_data

datatype dom_error = IndexSizeError

definition canvas_resize :: "nat \<Rightarrow> nat \<Rightarrow> canvas2d" where
  "canvas_resize cw ch =
     \<lparr>canvas_width = cw, canvas_height = ch, fillStyle = ''#000000'',
      bitmap = replicate (4 * cw * ch) 0\<rparr>"

definition canvas_byte :: "canvas2d \<Rightarrow> nat \<Rightarrow> nat \<Rightarrow> nat \<Rightarrow> 8 word" where
  "canvas_byte c x y k =
     (let i = 4 * (x + canvas_width c * y) + k
      in if x < canvas_width c \<and> y < canvas_height c \<and> i < length (bitmap c)
         then bitmap c ! i else 0)"

text \<open>
  The bytes of the rectangle with corners \<open>(0, 0)\<close> and \<open>(sw, sh)\<close>, row by row, and
  \<^verbatim>\<open>ctx.getImageData(0, 0, sw, sh).data\<close>.
\<close>

definition image_data :: "canvas2d \<Rightarrow> nat \<Rightarrow> nat \<Rightarrow> pixel_data" where
  "image_data c sw sh =
     concat (map (\<lambda>y. concat (map (\<lambda>x. map (canvas_byte c x y) [0 ..< 4]) [0 ..< sw]))
       [0 ..< sh])"

definition getImageData :: "canvas2d \<Rightarrow> nat \<Rightarrow> nat \<Rightarrow> dom_error + pixel_data" where
  "getImageData c sw sh =
     (if sw = 0 \<or> sh = 0 then Inl IndexSizeError else Inr (image_data c sw sh))"

text \<open>
  The colour of a fill style; the script meets two styles, \<^verbatim>\<open>'red'\<close> and the context's
  default \<^verbatim>\<open>'#000000'\<close>.
\<close>

definition style_rgba :: "string \<Rightarrow> pixel_data" where
  "style_rgba s = (if s = ''red'' then [255, 0, 0, 255] else [0, 0, 0, 255])"

text \<open>\<^verbatim>\<open>ctx.fillRect(0, 0, rw, rh)\<close>\<close>

definition fillRect :: "canvas2d \<Rightarrow> nat \<Rightarrow> nat \<Rightarrow> canvas2d" where
  "fillRect c rw rh =
     c\<lparr>bitmap :=
        map (\<lambda>i. if (i div 4) mod canvas_width c < rw \<and> (i div 4) div canvas_width c < rh
                 then style_rgba (fillStyle c) ! (i mod 4) else bitmap c ! i)
          [0 ..< length (bitmap c)]\<rparr>"

subsection \<open>The script's globals, reset, setupCubes and pixelate\<close>

record globals =
  w :: nat
  h :: nat
  nrOfCubesX :: jsnum
  nrOfCubesY :: jsnum
  colors :: color_table
  cubes :: "cube list"
  canvas :: canvas2d

text \<open>
  \<^verbatim>\<open>reset\<close>, with \<^verbatim>\<open>video.videoWidth\<close> and \<^verbatim>\<open>video.videoHeight\<close> as arguments; the
  two attributes are of the DOM type \<^verbatim>\<open>unsigned long\<close>, 32 bits wide.
\<close>

definition reset :: "nat \<Rightarrow> 32 word \<Rightarrow> 32 word \<Rightarrow> globals \<Rightarrow> globals" where
  "reset sz videoWidth videoHeight s =
     s\<lparr>w := unat videoWidth, h := unat videoHeight,
       canvas := canvas_resize (unat videoWidth) (unat videoHeight),
       nrOfCubesX := js_div (Num (of_nat (unat videoWidth))) (Num (of_nat sz)),
       nrOfCubesY := js_div (Num (of_nat (unat videoHeight))) (Num (of_nat sz))\<rparr>"

definition setupCubes :: "globals \<Rightarrow> globals option" where
  "setupCubes s =
     map_option (\<lambda>cs. s\<lparr>cubes := cs\<rparr>) (setupCubes_xs (nrOfCubesX s) (nrOfCubesY s) 0 [])"

text \<open>The callback that \<^verbatim>\<open>pixelate\<close> runs on each cube.\<close>

definition pixelate_cube :: "nat \<Rightarrow> nat \<Rightarrow> nat \<Rightarrow> color_table \<Rightarrow> pixel_data \<Rightarrow> cube \<Rightarrow> cube" where
  "pixelate_cube sz W H table pixels cube =
     (let x = position_x cube;
          y = position_y cube;
          col = getAverage sz W pixels (int W - int x * int sz) (int H - int y * int sz);
          c = js_round col;
          z = js_add (js_div col (Num 10)) (js_literal (1 / 100))
      in cube\<lparr>material_color := table c, scale_z := z, position_z := js_div z (Num 2)\<rparr>)"

text \<open>
  \<^verbatim>\<open>pixelate\<close>: the image data are read first, then the red rectangle is painted on
  the canvas, then every cube is updated from the image data read before.
\<close>

definition pixelate :: "nat \<Rightarrow> globals \<Rightarrow> dom_error + globals" where
  "pixelate sz s =
     (case getImageData (canvas s) (w s) (h s) of
        Inl e \<Rightarrow> Inl e
      | Inr pixels \<Rightarrow>
          Inr (s\<lparr>canvas := fillRect ((canvas s)\<lparr>fillStyle := ''red''\<rparr>) 50 50,
                 cubes := map (pixelate_cube sz (w s) (h s) (colors s) pixels) (cubes s)\<rparr>))"

text \<open>
  \<^verbatim>\<open>ctx.drawImage(video, 0, 0, w, h)\<close>, with the video frame given as the RGBA bytes of
  its \<open>w \<times> h\<close> opaque pixels: it replaces the bitmap of the canvas.
\<close>

definition drawImage :: "pixel_data \<Rightarrow> globals \<Rightarrow> globals" where
  "drawImage frame s = s\<lparr>canvas := (canvas s)\<lparr>bitmap := frame\<rparr>\<rparr>"

text \<open>
  The globals when \<^verbatim>\<open>setup\<close> reaches \<^verbatim>\<open>reset\<close>: \<^verbatim>\<open>setupColors\<close> has filled the
  table, the canvas of the page has its default size, and the variables that are not
  assigned yet are given placeholder values.
\<close>

definition start :: globals where
  "start =
     \<lparr>w = 0, h = 0, nrOfCubesX = NaN, nrOfCubesY = NaN, colors = setupColors, cubes = [],
      canvas = canvas_resize 300 150\<rparr>"

subsection \<open>The sampler as the specification words it\<close>

text \<open>
  The specification's luminance: the channel sums \<open>R\<close>, \<open>G\<close>, \<open>B\<close> over the pixels \<open>(x, y)\<close>
  with \<open>x\<close> in \<open>[px0, px0 + size)\<close> and \<open>y\<close> in \<open>[py0, py0 + size)\<close>, read at the linear index
  \<open>(x + W * y) * 4\<close> (plus the channel), then \<open>(0.2126 * R + 0.7152 * G + 0.0722 * B) /
  (size * size)\<close> in the arithmetic of JavaScript. These definitions follow the
  specification, not the source; the theorems compare them with \<open>getAverage\<close>.
\<close>

definition channel_at :: "nat \<Rightarrow> pixel_data \<Rightarrow> nat \<Rightarrow> nat \<Rightarrow> nat \<Rightarrow> nat" where
  "channel_at W pixels k x y = unat (pixels ! ((x + W * y) * 4 + k))"

definition spec_channel_sum :: "nat \<Rightarrow> nat \<Rightarrow> pixel_data \<Rightarrow> nat \<Rightarrow> nat \<Rightarrow> nat \<Rightarrow> nat" where
  "spec_channel_sum sz W pixels px0 py0 k =
     (\<Sum>x = px0 ..< px0 + sz. \<Sum>y = py0 ..< py0 + sz. channel_at W pixels k x y)"

definition spec_luminance :: "nat \<Rightarrow> nat \<Rightarrow> pixel_data \<Rightarrow> nat \<Rightarrow> nat \<Rightarrow> jsnum" where
  "spec_luminance sz W pixels px0 py0 =
     js_div
       (js_add
          (js_add
             (js_mul (js_literal (2126 / 10000)) (Num (of_nat (spec_channel_sum sz W pixels px0 py0 0))))
             (js_mul (js_literal (7152 / 10000)) (Num (of_nat (spec_channel_sum sz W pixels px0 py0 1)))))
          (js_mul (js_literal (722 / 10000)) (Num (of_nat (spec_channel_sum sz W pixels px0 py0 2)))))
       (js_mul (Num (of_nat sz)) (Num (of_nat sz)))"

text \<open>
  \<open>num_le k x y\<close>: both numbers are finite, \<open>0 \<le> x \<le> y \<le> 2 ^ k\<close>. With \<open>x = y\<close> it says that
  a number is finite, non-negative and at most \<open>2 ^ k\<close>.
\<close>

definition num_le :: "nat \<Rightarrow> jsnum \<Rightarrow> jsnum \<Rightarrow> bool" where
  "num_le k x y =
     (case (x, y) of (Num a, Num b) \<Rightarrow> 0 \<le> a \<and> a \<le> b \<and> b \<le> 2 ^ k | _ \<Rightarrow> False)"

text \<open>Two triples of running sums in order, component by component, none above \<open>2 ^ 62\<close>.\<close>

definition sums_le :: "rgb_sums \<Rightarrow> rgb_sums \<Rightarrow> bool" where
  "sums_le p q =
     (case (p, q) of ((r, g, b), (r', g', b')) \<Rightarrow> num_le 62 r r' \<and> num_le 62 g g' \<and> num_le 62 b b')"

section \<open>Properties\<close>

subsection \<open>Rounding rationals\<close>

lemma floor_rat_numeral [simp]:
  "\<lfloor>(numeral a :: rat) / numeral b\<rfloor> = numeral a div numeral b"
proof -
  have "\<lfloor>(of_int (numeral a) :: rat) / of_int (numeral b)\<rfloor> = numeral a div numeral b"
    by (rule floor_divide_of_int_eq)
  then show ?thesis by simp
qed

lemma ceiling_rat_numeral [simp]:
  "\<lceil>(numeral a :: rat) / numeral b\<rceil> = - (- numeral a div numeral b)"
proof -
  have "\<lfloor>(of_int (- numeral a) :: rat) / of_int (numeral b)\<rfloor> = - numeral a div numeral b"
    by (rule floor_divide_of_int_eq)
  then show ?thesis by (simp add: ceiling_def)
qed

lemma rne_of_int [simp]: "rne (of_int n) = n"
  by (simp add: rne_def)

lemma rne_mono: "x \<le> y \<Longrightarrow> rne x \<le> rne y"
proof -
  assume xy: "x \<le> y"
  then have fl: "\<lfloor>x\<rfloor> \<le> \<lfloor>y\<rfloor>" by (rule floor_mono)
  show ?thesis
  proof (cases "\<lfloor>x\<rfloor> = \<lfloor>y\<rfloor>")
    case True
    with xy show ?thesis by (auto simp: rne_def Let_def)
  next
    case False
    with fl have "\<lfloor>x\<rfloor> + 1 \<le> \<lfloor>y\<rfloor>" by simp
    moreover have "rne x \<le> \<lfloor>x\<rfloor> + 1" by (simp add: rne_def Let_def)
    moreover have "\<lfloor>y\<rfloor> \<le> rne y" by (simp add: rne_def Let_def)
    ultimately show ?thesis by linarith
  qed
qed

lemma rne_upper: "of_int (rne x) \<le> x + 1 / 2"
proof -
  define f where "f = \<lfloor>x\<rfloor>"
  have "of_int f \<le> x" and "x < of_int f + 1" unfolding f_def by linarith+
  then show ?thesis unfolding rne_def Let_def f_def [symmetric] by auto
qed

lemma rne_lower: "x - 1 / 2 \<le> of_int (rne x)"
proof -
  define f where "f = \<lfloor>x\<rfloor>"
  have "of_int f \<le> x" and "x < of_int f + 1" unfolding f_def by linarith+
  then show ?thesis unfolding rne_def Let_def f_def [symmetric] by auto
qed

lemma rne_le: "x \<le> of_int n \<Longrightarrow> rne x \<le> n"
  using rne_mono [of x "of_int n"] by simp

lemma rne_ge: "of_int n \<le> x \<Longrightarrow> n \<le> rne x"
  using rne_mono [of "of_int n" x] by simp

lemma pow2_le: "a \<le> b \<Longrightarrow> (2::rat) ^ a \<le> 2 ^ b"
  by (rule power_increasing) simp_all

subsection \<open>The two searches of fl\<close>

lemma fl_up_steps:
  "0 \<le> q \<Longrightarrow> i = 0 \<or> q * 2 ^ (i - 1) < 2 ^ 52 \<Longrightarrow> 2 ^ 52 \<le> q * 2 ^ i \<or> j + i = 1074 \<Longrightarrow>
     j + i \<le> 1074 \<Longrightarrow> fl_up q j = of_int (rne (q * 2 ^ i)) / 2 ^ (j + i)"
proof (induction i arbitrary: q j)
  case 0
  then show ?case by (subst fl_up.simps) auto
next
  case (Suc n)
  from Suc.prems(2) have "q * 2 ^ n < 2 ^ 52" by simp
  moreover have "q * 1 \<le> q * 2 ^ n" using Suc.prems(1) by (intro mult_left_mono) simp_all
  ultimately have q: "q < 2 ^ 52" by simp
  from Suc.prems(4) have j: "j < 1074" by simp
  have "fl_up (2 * q) (j + 1) = of_int (rne (2 * q * 2 ^ n)) / 2 ^ (j + 1 + n)"
  proof (rule Suc.IH)
    show "0 \<le> 2 * q" using Suc.prems(1) by simp
    show "n = 0 \<or> 2 * q * 2 ^ (n - 1) < 2 ^ 52"
    proof (cases n)
      case 0
      then show ?thesis by simp
    next
      case (Suc m)
      with \<open>q * 2 ^ n < 2 ^ 52\<close> show ?thesis by (simp add: mult.commute mult.left_commute)
    qed
    show "2 ^ 52 \<le> 2 * q * 2 ^ n \<or> j + 1 + n = 1074"
      using Suc.prems(3) by (simp add: mult.commute mult.left_commute)
    show "j + 1 + n \<le> 1074" using Suc.prems(4) by simp
  qed
  moreover have "2 * q * 2 ^ n = q * 2 ^ Suc n" and "j + 1 + n = j + Suc n" by simp_all
  ultimately have "fl_up (2 * q) (j + 1) = of_int (rne (q * 2 ^ Suc n)) / 2 ^ (j + Suc n)"
    by (simp only:)
  then show ?case using q j by (subst fl_up.simps) (simp only: if_True simp_thms)
qed

lemma fl_down_steps:
  "i = 0 \<or> 2 ^ 53 \<le> q / 2 ^ (i - 1) \<Longrightarrow> q / 2 ^ i < 2 ^ 53 \<Longrightarrow>
     fl_down q j = of_int (rne (q / 2 ^ i)) * 2 ^ (j + i)"
proof (induction i arbitrary: q j)
  case 0
  then show ?case by (subst fl_down.simps) auto
next
  case (Suc n)
  from Suc.prems(1) have big: "2 ^ 53 \<le> q / 2 ^ n" by simp
  have q0: "0 \<le> q"
  proof (rule ccontr)
    assume "\<not> 0 \<le> q"
    then have "q / 2 ^ n < 0" by (simp add: divide_neg_pos)
    with big show False by simp
  qed
  have "q / 2 ^ n \<le> q / 1" using q0 by (intro divide_left_mono) simp_all
  with big have q: "2 ^ 53 \<le> q" by simp
  have "fl_down (q / 2) (j + 1) = of_int (rne (q / 2 / 2 ^ n)) * 2 ^ (j + 1 + n)"
  proof (rule Suc.IH)
    show "n = 0 \<or> 2 ^ 53 \<le> q / 2 / 2 ^ (n - 1)"
    proof (cases n)
      case 0
      then show ?thesis by simp
    next
      case (Suc m)
      with big show ?thesis by simp
    qed
    show "q / 2 / 2 ^ n < 2 ^ 53" using Suc.prems(2) by simp
  qed
  moreover have "q / 2 / 2 ^ n = q / 2 ^ Suc n" and "j + 1 + n = j + Suc n" by simp_all
  ultimately have "fl_down (q / 2) (j + 1) = of_int (rne (q / 2 ^ Suc n)) * 2 ^ (j + Suc n)"
    by (simp only:)
  then show ?case using q by (subst fl_down.simps) (simp only: if_True)
qed

lemma fl_up_cases:
  assumes "0 \<le> q" and "q < 2 ^ 53"
  obtains i where "fl q = of_int (rne (q * 2 ^ i)) / 2 ^ i" and "q * 2 ^ i < 2 ^ 53"
    and "i \<le> 1074" and "2 ^ 52 \<le> q * 2 ^ i \<or> i = 1074"
    and "i = 0 \<or> q * 2 ^ (i - 1) < 2 ^ 52"
proof -
  define P where "P i \<longleftrightarrow> 2 ^ 52 \<le> q * 2 ^ i \<or> i = 1074" for i :: nat
  define i where "i = (LEAST i. P i)"
  have "P 1074" by (simp add: P_def)
  then have Pi: "P i" and le: "i \<le> 1074" unfolding i_def by (rule LeastI, rule Least_le)
  have prev: "i = 0 \<or> q * 2 ^ (i - 1) < 2 ^ 52"
  proof (cases i)
    case 0
    then show ?thesis by simp
  next
    case (Suc n)
    then have "n < i" by simp
    then have "\<not> P n" unfolding i_def by (rule not_less_Least)
    with Suc show ?thesis by (simp add: P_def not_le)
  qed
  have small: "q * 2 ^ i < 2 ^ 53"
  proof (cases i)
    case 0
    with assms(2) show ?thesis by simp
  next
    case (Suc n)
    with prev have "q * 2 ^ n < 2 ^ 52" by simp
    with Suc show ?thesis by simp
  qed
  have "fl q = fl_up q 0" using assms(2) by (simp add: fl_def)
  also have "\<dots> = of_int (rne (q * 2 ^ i)) / 2 ^ (0 + i)"
    using assms(1) prev Pi le by (intro fl_up_steps) (simp_all add: P_def)
  finally have "fl q = of_int (rne (q * 2 ^ i)) / 2 ^ i" by simp
  with le small Pi prev show ?thesis by (intro that [of i]) (simp_all add: P_def)
qed

lemma fl_down_cases:
  assumes "2 ^ 53 \<le> q"
  obtains i where "0 < i" and "fl q = of_int (rne (q / 2 ^ i)) * 2 ^ i"
    and "2 ^ 52 \<le> q / 2 ^ i" and "q / 2 ^ i < 2 ^ 53"
proof -
  define P where "P i \<longleftrightarrow> q / 2 ^ i < 2 ^ 53" for i :: nat
  define i where "i = (LEAST i. P i)"
  obtain n :: nat where "q < of_nat n * 1" using ex_less_of_nat_mult [of 1 q] by auto
  then have n: "q < of_nat n" by simp
  have "rat_of_nat n < 2 ^ n" by (rule of_nat_less_two_power)
  with n have "q < 2 ^ n" by (rule less_trans)
  then have "q / 2 ^ n < 1" by (simp add: divide_less_eq)
  also have "(1::rat) < 2 ^ 53" by simp
  finally have "P n" unfolding P_def .
  then have Pi: "P i" unfolding i_def by (rule LeastI)
  have "\<not> P 0" using assms by (simp add: P_def)
  with Pi have pos: "0 < i" by (cases i) auto
  then obtain m where m: "i = Suc m" by (cases i) auto
  then have "m < i" by simp
  then have "\<not> P m" unfolding i_def by (rule not_less_Least)
  then have "2 ^ 53 \<le> q / 2 ^ m" by (simp add: P_def not_less)
  then have big: "2 ^ 52 \<le> q / 2 ^ i" using m by simp
  have prev: "i = 0 \<or> 2 ^ 53 \<le> q / 2 ^ (i - 1)" using m \<open>2 ^ 53 \<le> q / 2 ^ m\<close> by simp
  have "fl q = fl_down q 0" using assms by (simp add: fl_def)
  also have "\<dots> = of_int (rne (q / 2 ^ i)) * 2 ^ (0 + i)"
    using prev Pi by (intro fl_down_steps) (simp_all add: P_def)
  finally have "fl q = of_int (rne (q / 2 ^ i)) * 2 ^ i" by simp
  with pos big Pi show ?thesis by (intro that [of i]) (simp_all add: P_def)
qed

text \<open>How to evaluate \<open>fl\<close> at a given number: name the power of two that scales it.\<close>

lemma fl_up_eq:
  assumes "2 ^ 52 \<le> q * 2 ^ i" and "q * 2 ^ i < 2 ^ 53" and "i \<le> 1074"
  shows "fl q = of_int (rne (q * 2 ^ i)) / 2 ^ i"
proof -
  have q0: "0 < q"
  proof (rule ccontr)
    assume "\<not> 0 < q"
    then have "q * 2 ^ i \<le> 0" by (simp add: mult_le_0_iff)
    with assms(1) show False by simp
  qed
  have "q * 1 \<le> q * 2 ^ i" using q0 by (intro mult_left_mono) simp_all
  with assms(2) have q53: "q < 2 ^ 53" by simp
  have prev: "i = 0 \<or> q * 2 ^ (i - 1) < 2 ^ 52"
  proof (cases i)
    case 0
    then show ?thesis by simp
  next
    case (Suc n)
    with assms(2) show ?thesis by simp
  qed
  have "fl q = fl_up q 0" using q53 by (simp add: fl_def)
  also have "\<dots> = of_int (rne (q * 2 ^ i)) / 2 ^ (0 + i)"
    using q0 prev assms by (intro fl_up_steps) simp_all
  finally show ?thesis by simp
qed

lemma fl_down_eq:
  assumes "2 ^ 52 \<le> q / 2 ^ i" and "q / 2 ^ i < 2 ^ 53" and "0 < i"
  shows "fl q = of_int (rne (q / 2 ^ i)) * 2 ^ i"
proof -
  from assms(3) obtain m where m: "i = Suc m" by (cases i) auto
  with assms(1) have big: "2 ^ 53 \<le> q / 2 ^ m" by simp
  have q0: "0 \<le> q"
  proof (rule ccontr)
    assume "\<not> 0 \<le> q"
    then have "q / 2 ^ m < 0" by (simp add: divide_neg_pos)
    with big show False by simp
  qed
  have "q / 2 ^ m \<le> q / 1" using q0 by (intro divide_left_mono) simp_all
  with big have q: "2 ^ 53 \<le> q" by simp
  have "fl q = fl_down q 0" using q by (simp add: fl_def)
  also have "\<dots> = of_int (rne (q / 2 ^ i)) * 2 ^ (0 + i)"
    using big m assms(2) by (intro fl_down_steps) simp_all
  finally show ?thesis by simp
qed

subsection \<open>What fl leaves as it is, its order, and its error\<close>

lemma fl_exact:
  assumes "0 \<le> q" and "q * 2 ^ t = of_int m" and "q * 2 ^ t < 2 ^ 53" and "t \<le> 1074"
  shows "fl q = q"
proof -
  have "q * 1 \<le> q * 2 ^ t" using assms(1) by (intro mult_left_mono) simp_all
  with assms(3) have "q < 2 ^ 53" by simp
  with assms(1) obtain i where i: "fl q = of_int (rne (q * 2 ^ i)) / 2 ^ i"
    "q * 2 ^ i < 2 ^ 53" "i \<le> 1074" "2 ^ 52 \<le> q * 2 ^ i \<or> i = 1074"
    "i = 0 \<or> q * 2 ^ (i - 1) < 2 ^ 52"
    by (rule fl_up_cases)
  have "t \<le> i"
  proof (rule ccontr)
    assume "\<not> t \<le> i"
    then have lt: "i < t" by simp
    with assms(4) have "i \<noteq> 1074" by linarith
    with i(4) have big: "2 ^ 52 \<le> q * 2 ^ i" by simp
    from lt have "\<exists>e. t = Suc (i + e)" by (rule less_imp_Suc_add)
    then obtain e where "t = Suc (i + e)" ..
    then have e: "t = i + Suc e" by simp
    have "(1::rat) \<le> 2 ^ e" by simp
    then have two: "(2::rat) \<le> 2 ^ Suc e" by simp
    have "(2 ^ 52 :: rat) * 2 \<le> (q * 2 ^ i) * 2 ^ Suc e"
      using big two by (rule mult_mono) (use assms(1) in simp_all)
    moreover have "q * 2 ^ t = (q * 2 ^ i) * 2 ^ Suc e"
      unfolding e power_add by (rule mult.assoc [symmetric])
    ultimately have "(2 ^ 52 :: rat) * 2 \<le> q * 2 ^ t" by (simp only:)
    with assms(3) show False by simp
  qed
  then have "\<exists>d. i = t + d" by (rule le_Suc_ex)
  then obtain d where d: "i = t + d" ..
  have "q * 2 ^ i = (q * 2 ^ t) * 2 ^ d"
    unfolding d power_add by (rule mult.assoc [symmetric])
  also have "\<dots> = of_int m * 2 ^ d" by (simp only: assms(2))
  also have "\<dots> = of_int (m * 2 ^ d)" by simp
  finally have int: "q * 2 ^ i = of_int (m * 2 ^ d)" .
  have "of_int (rne (q * 2 ^ i)) = q * 2 ^ i"
    unfolding int by (simp only: rne_of_int)
  then have "fl q = q * 2 ^ i / 2 ^ i" using i(1) by (simp only:)
  then show ?thesis by simp
qed

lemma fl_of_nat: "n < 2 ^ 53 \<Longrightarrow> fl (of_nat n) = of_nat n"
proof -
  assume "n < 2 ^ 53"
  then have "rat_of_nat n < rat_of_nat (2 ^ 53)" by (simp only: of_nat_less_iff)
  then have "rat_of_nat n * 2 ^ 0 < 2 ^ 53" by simp
  moreover have "rat_of_nat n * 2 ^ 0 = of_int (int n)" by simp
  moreover have "0 \<le> rat_of_nat n" and "(0::nat) \<le> 1074" by simp_all
  ultimately show ?thesis by (intro fl_exact [where t = 0 and m = "int n"])
qed

lemma fl_pow2: "fl (2 ^ k) = 2 ^ k"
proof (cases "k < 53")
  case True
  then have "(2::nat) ^ k < 2 ^ 53" by (intro power_strict_increasing) simp_all
  then have "fl (of_nat (2 ^ k)) = of_nat (2 ^ k)" by (rule fl_of_nat)
  then show ?thesis by simp
next
  case False
  then have "\<exists>d. k = 52 + Suc d" by (intro exI [of _ "k - 53"]) simp
  then obtain d where d: "k = 52 + Suc d" ..
  have q: "(2::rat) ^ k / 2 ^ Suc d = 2 ^ 52" unfolding d power_add by simp
  have "fl (2 ^ k) = of_int (rne (2 ^ k / 2 ^ Suc d)) * 2 ^ Suc d"
  proof (rule fl_down_eq)
    show "2 ^ 52 \<le> (2::rat) ^ k / 2 ^ Suc d" by (simp only: q)
    show "(2::rat) ^ k / 2 ^ Suc d < 2 ^ 53" by (simp only: q) simp
    show "0 < Suc d" by simp
  qed
  also have "\<dots> = of_int (rne (of_int (2 ^ 52))) * 2 ^ Suc d" by (simp only: q) simp
  also have "\<dots> = of_int (2 ^ 52) * 2 ^ Suc d" by (simp only: rne_of_int)
  also have "\<dots> = 2 ^ 52 * 2 ^ Suc d" by simp
  also have "\<dots> = 2 ^ k" unfolding d power_add ..
  finally show ?thesis .
qed

lemma fl_up_bounds:
  assumes "0 \<le> q" and "fl q = of_int (rne (q * 2 ^ i)) / 2 ^ i" and "q * 2 ^ i < 2 ^ 53"
  shows "0 \<le> fl q" and "fl q \<le> 2 ^ 53 / 2 ^ i"
    and "2 ^ 52 \<le> q * 2 ^ i \<Longrightarrow> 2 ^ 52 / 2 ^ i \<le> fl q"
proof -
  have "of_int 0 \<le> q * 2 ^ i" using assms(1) by simp
  then have "0 \<le> rne (q * 2 ^ i)" by (rule rne_ge)
  then show "0 \<le> fl q" unfolding assms(2) by simp
  have "q * 2 ^ i \<le> of_int (2 ^ 53)" using assms(3) by simp
  then have "rne (q * 2 ^ i) \<le> 2 ^ 53" by (rule rne_le)
  then have "rat_of_int (rne (q * 2 ^ i)) \<le> rat_of_int (2 ^ 53)" by (simp only: of_int_le_iff)
  then show "fl q \<le> 2 ^ 53 / 2 ^ i" unfolding assms(2) by (simp add: divide_right_mono)
  assume "2 ^ 52 \<le> q * 2 ^ i"
  then have "of_int (2 ^ 52) \<le> q * 2 ^ i" by simp
  then have "2 ^ 52 \<le> rne (q * 2 ^ i)" by (rule rne_ge)
  then have "rat_of_int (2 ^ 52) \<le> rat_of_int (rne (q * 2 ^ i))" by (simp only: of_int_le_iff)
  then show "2 ^ 52 / 2 ^ i \<le> fl q" unfolding assms(2) by (simp add: divide_right_mono)
qed

lemma fl_down_bounds:
  assumes "fl q = of_int (rne (q / 2 ^ i)) * 2 ^ i" and "2 ^ 52 \<le> q / 2 ^ i" and "q / 2 ^ i < 2 ^ 53"
  shows "2 ^ 52 * 2 ^ i \<le> fl q" and "fl q \<le> 2 ^ 53 * 2 ^ i"
proof -
  have "of_int (2 ^ 52) \<le> q / 2 ^ i" using assms(2) by simp
  then have "2 ^ 52 \<le> rne (q / 2 ^ i)" by (rule rne_ge)
  then have "rat_of_int (2 ^ 52) \<le> rat_of_int (rne (q / 2 ^ i))" by (simp only: of_int_le_iff)
  then show "2 ^ 52 * 2 ^ i \<le> fl q" unfolding assms(1) by (simp add: mult_right_mono)
  have "q / 2 ^ i \<le> of_int (2 ^ 53)" using assms(3) by simp
  then have "rne (q / 2 ^ i) \<le> 2 ^ 53" by (rule rne_le)
  then have "rat_of_int (rne (q / 2 ^ i)) \<le> rat_of_int (2 ^ 53)" by (simp only: of_int_le_iff)
  then show "fl q \<le> 2 ^ 53 * 2 ^ i" unfolding assms(1) by (simp add: mult_right_mono)
qed

lemma fl_nonneg: "0 \<le> q \<Longrightarrow> 0 \<le> fl q"
proof (cases "q < 2 ^ 53")
  case True
  assume q: "0 \<le> q"
  from q True obtain i where i: "fl q = of_int (rne (q * 2 ^ i)) / 2 ^ i" "q * 2 ^ i < 2 ^ 53"
    "i \<le> 1074" "2 ^ 52 \<le> q * 2 ^ i \<or> i = 1074" "i = 0 \<or> q * 2 ^ (i - 1) < 2 ^ 52"
    by (rule fl_up_cases)
  from q i(1,2) show ?thesis by (rule fl_up_bounds(1))
next
  case False
  then have "2 ^ 53 \<le> q" by simp
  then obtain i where i: "0 < i" "fl q = of_int (rne (q / 2 ^ i)) * 2 ^ i" "2 ^ 52 \<le> q / 2 ^ i"
    "q / 2 ^ i < 2 ^ 53"
    by (rule fl_down_cases)
  from i(2,3,4) have "2 ^ 52 * 2 ^ i \<le> fl q" by (rule fl_down_bounds(1))
  moreover have "(0::rat) \<le> 2 ^ 52 * 2 ^ i" by simp
  ultimately show ?thesis by (rule order_trans [rotated])
qed

lemma fl_mono:
  assumes "0 \<le> a" and "a \<le> b"
  shows "fl a \<le> fl b"
proof -
  have b0: "0 \<le> b" using assms by simp
  consider "b < 2 ^ 53" | "a < 2 ^ 53" "2 ^ 53 \<le> b" | "2 ^ 53 \<le> a" by linarith
  then show ?thesis
  proof cases
    case 1
    with assms have a53: "a < 2 ^ 53" by simp
    from assms(1) a53 obtain i where i: "fl a = of_int (rne (a * 2 ^ i)) / 2 ^ i"
      "a * 2 ^ i < 2 ^ 53" "i \<le> 1074" "2 ^ 52 \<le> a * 2 ^ i \<or> i = 1074"
      "i = 0 \<or> a * 2 ^ (i - 1) < 2 ^ 52"
      by (rule fl_up_cases)
    from b0 1 obtain k where k: "fl b = of_int (rne (b * 2 ^ k)) / 2 ^ k"
      "b * 2 ^ k < 2 ^ 53" "k \<le> 1074" "2 ^ 52 \<le> b * 2 ^ k \<or> k = 1074"
      "k = 0 \<or> b * 2 ^ (k - 1) < 2 ^ 52"
      by (rule fl_up_cases)
    have ki: "k \<le> i"
    proof (rule ccontr)
      assume "\<not> k \<le> i"
      then have lt: "i < k" by simp
      with k(3) have "i \<noteq> 1074" by linarith
      with i(4) have big: "2 ^ 52 \<le> a * 2 ^ i" by simp
      from lt k(5) have small: "b * 2 ^ (k - 1) < 2 ^ 52" by simp
      from lt have "i \<le> k - 1" by simp
      then have "(2::rat) ^ i \<le> 2 ^ (k - 1)" by (rule pow2_le)
      then have "a * 2 ^ i \<le> b * 2 ^ (k - 1)" using assms b0 by (intro mult_mono) simp_all
      with big small show False by simp
    qed
    show ?thesis
    proof (cases "k = i")
      case True
      have "a * 2 ^ i \<le> b * 2 ^ i" using assms(2) by (intro mult_right_mono) simp_all
      then have "rne (a * 2 ^ i) \<le> rne (b * 2 ^ i)" by (rule rne_mono)
      then have "rat_of_int (rne (a * 2 ^ i)) \<le> rat_of_int (rne (b * 2 ^ i))"
        by (simp only: of_int_le_iff)
      then show ?thesis unfolding i(1) k(1) True by (simp add: divide_right_mono)
    next
      case False
      with ki have lt: "k < i" by simp
      with i(3) have "k \<noteq> 1074" by linarith
      with k(4) have big: "2 ^ 52 \<le> b * 2 ^ k" by simp
      have "fl a \<le> 2 ^ 53 / 2 ^ i" using assms(1) i(1,2) by (rule fl_up_bounds(2))
      also have "\<dots> = 2 ^ 52 / 2 ^ (i - 1)"
      proof -
        from lt obtain m where "i = Suc m" by (cases i) auto
        then show ?thesis by simp
      qed
      also have "\<dots> \<le> 2 ^ 52 / 2 ^ k"
      proof -
        from lt have "k \<le> i - 1" by simp
        then have "(2::rat) ^ k \<le> 2 ^ (i - 1)" by (rule pow2_le)
        then show ?thesis by (intro divide_left_mono) simp_all
      qed
      also have "\<dots> \<le> fl b" using b0 k(1,2) big by (rule fl_up_bounds(3))
      finally show ?thesis .
    qed
  next
    case 2
    from assms(1) 2(1) obtain i where i: "fl a = of_int (rne (a * 2 ^ i)) / 2 ^ i"
      "a * 2 ^ i < 2 ^ 53" "i \<le> 1074" "2 ^ 52 \<le> a * 2 ^ i \<or> i = 1074"
      "i = 0 \<or> a * 2 ^ (i - 1) < 2 ^ 52"
      by (rule fl_up_cases)
    from 2(2) obtain k where k: "0 < k" "fl b = of_int (rne (b / 2 ^ k)) * 2 ^ k"
      "2 ^ 52 \<le> b / 2 ^ k" "b / 2 ^ k < 2 ^ 53"
      by (rule fl_down_cases)
    have "fl a \<le> 2 ^ 53 / 2 ^ i" using assms(1) i(1,2) by (rule fl_up_bounds(2))
    also have "\<dots> \<le> 2 ^ 53 / 1" by (intro divide_left_mono) simp_all
    also have "\<dots> = 2 ^ 52 * 2 ^ 1" by simp
    also have "\<dots> \<le> 2 ^ 52 * 2 ^ k"
    proof -
      from k(1) have "1 \<le> k" by simp
      then have "(2::rat) ^ 1 \<le> 2 ^ k" by (rule pow2_le)
      then show ?thesis by (intro mult_left_mono) simp_all
    qed
    also have "\<dots> \<le> fl b" using k(2,3,4) by (rule fl_down_bounds(1))
    finally show ?thesis .
  next
    case 3
    with assms(2) have b53: "2 ^ 53 \<le> b" by simp
    from 3 obtain i where i: "0 < i" "fl a = of_int (rne (a / 2 ^ i)) * 2 ^ i"
      "2 ^ 52 \<le> a / 2 ^ i" "a / 2 ^ i < 2 ^ 53"
      by (rule fl_down_cases)
    from b53 obtain k where k: "0 < k" "fl b = of_int (rne (b / 2 ^ k)) * 2 ^ k"
      "2 ^ 52 \<le> b / 2 ^ k" "b / 2 ^ k < 2 ^ 53"
      by (rule fl_down_cases)
    have ik: "i \<le> k"
    proof (rule ccontr)
      assume "\<not> i \<le> k"
      then have lt: "k < i" by simp
      then obtain m where m: "i = Suc m" by (cases i) auto
      with i(3) have "2 ^ 53 \<le> a / 2 ^ m" by simp
      also have "\<dots> \<le> b / 2 ^ m" using assms(2) by (intro divide_right_mono) simp_all
      also have "\<dots> \<le> b / 2 ^ k"
      proof -
        from lt m have "k \<le> m" by simp
        then have "(2::rat) ^ k \<le> 2 ^ m" by (rule pow2_le)
        then show ?thesis using b0 by (intro divide_left_mono) simp_all
      qed
      finally show False using k(4) by simp
    qed
    show ?thesis
    proof (cases "i = k")
      case True
      have "a / 2 ^ k \<le> b / 2 ^ k" using assms(2) by (intro divide_right_mono) simp_all
      then have "rne (a / 2 ^ k) \<le> rne (b / 2 ^ k)" by (rule rne_mono)
      then have "rat_of_int (rne (a / 2 ^ k)) \<le> rat_of_int (rne (b / 2 ^ k))"
        by (simp only: of_int_le_iff)
      then show ?thesis unfolding i(2) k(2) True by (simp add: mult_right_mono)
    next
      case False
      with ik have lt: "i < k" by simp
      have "fl a \<le> 2 ^ 53 * 2 ^ i" using i(2,3,4) by (rule fl_down_bounds(2))
      also have "\<dots> = 2 ^ 52 * 2 ^ Suc i" by simp
      also have "\<dots> \<le> 2 ^ 52 * 2 ^ k"
      proof -
        from lt have "Suc i \<le> k" by simp
        then have "(2::rat) ^ Suc i \<le> 2 ^ k" by (rule pow2_le)
        then show ?thesis by (intro mult_left_mono) simp_all
      qed
      also have "\<dots> \<le> fl b" using k(2,3,4) by (rule fl_down_bounds(1))
      finally show ?thesis .
    qed
  qed
qed

lemma fl_lower:
  assumes "1 \<le> q" and "q < 2 ^ 53"
  shows "q - q / 2 ^ 53 \<le> fl q"
proof -
  from assms(1) have q0: "0 \<le> q" by simp
  from q0 assms(2) obtain i where i: "fl q = of_int (rne (q * 2 ^ i)) / 2 ^ i" "q * 2 ^ i < 2 ^ 53"
    "i \<le> 1074" "2 ^ 52 \<le> q * 2 ^ i \<or> i = 1074" "i = 0 \<or> q * 2 ^ (i - 1) < 2 ^ 52"
    by (rule fl_up_cases)
  have big: "2 ^ 52 \<le> q * 2 ^ i"
  proof (cases "i = 1074")
    case True
    have "(2::rat) ^ 52 \<le> 2 ^ 1074" by (rule pow2_le) simp
    also have "\<dots> = 1 * 2 ^ 1074" by simp
    also have "\<dots> \<le> q * 2 ^ 1074" using assms(1) by (intro mult_right_mono) simp_all
    finally show ?thesis using True by simp
  next
    case False
    with i(4) show ?thesis by simp
  qed
  then have inv: "1 / 2 ^ i \<le> q / 2 ^ 52" by (simp add: field_simps)
  have "q * 2 ^ i - 1 / 2 \<le> of_int (rne (q * 2 ^ i))" by (rule rne_lower)
  then have "(q * 2 ^ i - 1 / 2) / 2 ^ i \<le> fl q" unfolding i(1) by (intro divide_right_mono) simp_all
  moreover have "(q * 2 ^ i - 1 / 2) / 2 ^ i = q - (1 / 2 ^ i) / 2" by (simp add: field_simps)
  moreover have "(1 / 2 ^ i) / 2 \<le> (q / 2 ^ 52) / 2" using inv by (intro divide_right_mono) simp_all
  moreover have "(q / 2 ^ 52) / 2 = q / 2 ^ 53" by simp
  ultimately show ?thesis by linarith
qed

lemma fl_pos:
  assumes "0 < q" and "2 ^ 52 \<le> q * 2 ^ 1074"
  shows "0 < fl q"
proof (cases "q < 2 ^ 53")
  case True
  from assms(1) have q0: "0 \<le> q" by simp
  from q0 True obtain i where i: "fl q = of_int (rne (q * 2 ^ i)) / 2 ^ i" "q * 2 ^ i < 2 ^ 53"
    "i \<le> 1074" "2 ^ 52 \<le> q * 2 ^ i \<or> i = 1074" "i = 0 \<or> q * 2 ^ (i - 1) < 2 ^ 52"
    by (rule fl_up_cases)
  have big: "2 ^ 52 \<le> q * 2 ^ i"
  proof (cases "i = 1074")
    case True
    with assms(2) show ?thesis by (simp only:)
  next
    case False
    with i(4) show ?thesis by simp
  qed
  from q0 have "2 ^ 52 / 2 ^ i \<le> fl q" using i(1,2) big by (rule fl_up_bounds(3))
  moreover have "(0::rat) < 2 ^ 52 / 2 ^ i" by simp
  ultimately show ?thesis by (rule less_le_trans [rotated])
next
  case False
  then have "2 ^ 53 \<le> q" by simp
  then obtain i where i: "0 < i" "fl q = of_int (rne (q / 2 ^ i)) * 2 ^ i" "2 ^ 52 \<le> q / 2 ^ i"
    "q / 2 ^ i < 2 ^ 53"
    by (rule fl_down_cases)
  from i(2,3,4) have "2 ^ 52 * 2 ^ i \<le> fl q" by (rule fl_down_bounds(1))
  moreover have "(0::rat) < 2 ^ 52 * 2 ^ i" by simp
  ultimately show ?thesis by (rule less_le_trans [rotated])
qed

subsection \<open>Numbers that do not overflow\<close>

lemma to_double_bounded:
  assumes "0 \<le> q" and "q \<le> 2 ^ k" and "k < 1024"
  shows "to_double q = Num (fl q)" and "fl q \<le> 2 ^ k" and "0 \<le> fl q"
proof -
  have "fl q \<le> fl (2 ^ k)" using assms(1,2) by (rule fl_mono)
  then show le: "fl q \<le> 2 ^ k" by (simp only: fl_pow2)
  have "(2::rat) ^ k < 2 ^ 1024" using assms(3) by (intro power_strict_increasing) simp_all
  with le have "\<not> 2 ^ 1024 \<le> fl q" by simp
  with assms(1) show "to_double q = Num (fl q)" by (simp only: to_double_def if_True if_False)
  show "0 \<le> fl q" using assms(1) by (rule fl_nonneg)
qed

lemma to_double_of_nat: "n < 2 ^ 53 \<Longrightarrow> to_double (of_nat n) = Num (of_nat n)"
proof -
  assume n: "n < 2 ^ 53"
  then have "rat_of_nat n \<le> rat_of_nat (2 ^ 53)" by (simp only: of_nat_le_iff)
  then have "rat_of_nat n \<le> 2 ^ 53" by simp
  then have "to_double (of_nat n) = Num (fl (of_nat n))"
    by (intro to_double_bounded(1) [where k = 53]) simp_all
  with n show ?thesis by (simp only: fl_of_nat)
qed

lemma js_add_of_nat:
  "n + m < 2 ^ 53 \<Longrightarrow> js_add (Num (of_nat n)) (Num (of_nat m)) = Num (of_nat (n + m))"
  using to_double_of_nat [of "n + m"] by simp

lemma js_add_NaN_right [simp]: "js_add x NaN = NaN"
  by (cases x) simp_all

lemma js_mul_NaN_right [simp]: "js_mul x NaN = NaN"
  by (cases x) simp_all

lemma js_div_NaN_right [simp]: "js_div x NaN = NaN"
  by (cases x) simp_all

subsection \<open>The loops of setupCubes\<close>

lemma of_nat_less_ceiling: "(rat_of_nat y < q) = (y < nat \<lceil>q\<rceil>)"
proof -
  have "(rat_of_nat y < q) = (of_int (int y) < q)" by simp
  also have "\<dots> = (int y < \<lceil>q\<rceil>)" by (simp only: less_ceiling_iff)
  also have "\<dots> = (y < nat \<lceil>q\<rceil>)" by linarith
  finally show ?thesis .
qed

lemma setupCubes_ys_closed:
  "y \<le> nat \<lceil>q\<rceil> \<Longrightarrow>
     setupCubes_ys (Num q) x y cs = Some (cs @ map (new_cube x) [y ..< nat \<lceil>q\<rceil>])"
proof (induction "nat \<lceil>q\<rceil> - y" arbitrary: y cs)
  case 0
  then have "y = nat \<lceil>q\<rceil>" by simp
  then have "\<not> of_nat y < q" by (simp add: of_nat_less_ceiling)
  then show ?case using \<open>y = nat \<lceil>q\<rceil>\<close> by (subst setupCubes_ys.simps) simp
next
  case (Suc n)
  then have lt: "y < nat \<lceil>q\<rceil>" by simp
  then have "of_nat y < q" by (simp add: of_nat_less_ceiling)
  moreover have "setupCubes_ys (Num q) x (y + 1) (cs @ [new_cube x y]) =
      Some ((cs @ [new_cube x y]) @ map (new_cube x) [y + 1 ..< nat \<lceil>q\<rceil>])"
    using Suc lt by (intro Suc.hyps) auto
  ultimately show ?case using lt by (subst setupCubes_ys.simps) (simp add: upt_conv_Cons)
qed

lemma setupCubes_xs_closed:
  "x \<le> nat \<lceil>p\<rceil> \<Longrightarrow> setupCubes_xs (Num p) (Num q) x cs =
     Some (cs @ concat (map (\<lambda>x. map (new_cube x) [0 ..< nat \<lceil>q\<rceil>]) [x ..< nat \<lceil>p\<rceil>]))"
proof (induction "nat \<lceil>p\<rceil> - x" arbitrary: x cs)
  case 0
  then have "x = nat \<lceil>p\<rceil>" by simp
  then have "\<not> of_nat x < p" by (simp add: of_nat_less_ceiling)
  then show ?case using \<open>x = nat \<lceil>p\<rceil>\<close> by (subst setupCubes_xs.simps) simp
next
  case (Suc n)
  then have lt: "x < nat \<lceil>p\<rceil>" by simp
  then have "of_nat x < p" by (simp add: of_nat_less_ceiling)
  moreover have "setupCubes_xs (Num p) (Num q) (x + 1) (cs @ map (new_cube x) [0 ..< nat \<lceil>q\<rceil>]) =
      Some ((cs @ map (new_cube x) [0 ..< nat \<lceil>q\<rceil>]) @
        concat (map (\<lambda>x. map (new_cube x) [0 ..< nat \<lceil>q\<rceil>]) [x + 1 ..< nat \<lceil>p\<rceil>]))"
    using Suc lt by (intro Suc.hyps) auto
  ultimately show ?case using lt
    by (subst setupCubes_xs.simps) (simp add: upt_conv_Cons setupCubes_ys_closed)
qed

lemma length_concat_const: "length (concat (map (\<lambda>x. map (f x) [0 ..< m]) [0 ..< n])) = n * m"
  by (induction n) simp_all

subsection \<open>The quotients of reset\<close>

lemma unat32_less: "unat (v :: 32 word) < 2 ^ 32"
  using unsigned_less [of v, where ?'a = nat] by simp

lemma quotient_bounds:
  assumes "0 < sz" and "W < 2 ^ 32"
  shows "0 \<le> rat_of_nat W / rat_of_nat sz" and "rat_of_nat W / rat_of_nat sz \<le> rat_of_nat W"
    and "rat_of_nat W / rat_of_nat sz \<le> 2 ^ 32"
proof -
  show "0 \<le> rat_of_nat W / rat_of_nat sz" by simp
  have "1 \<le> rat_of_nat sz" using assms(1) by simp
  then have "rat_of_nat W / rat_of_nat sz \<le> rat_of_nat W / 1"
    by (intro divide_left_mono) simp_all
  then show le: "rat_of_nat W / rat_of_nat sz \<le> rat_of_nat W" by simp
  have "rat_of_nat W \<le> rat_of_nat (2 ^ 32)" using assms(2) by (simp only: of_nat_le_iff)
  with le show "rat_of_nat W / rat_of_nat sz \<le> 2 ^ 32" by simp
qed

lemma js_div_quotient:
  assumes "0 < sz" and "W < 2 ^ 32"
  shows "js_div (Num (of_nat W)) (Num (of_nat sz)) = Num (fl (of_nat W / of_nat sz))"
proof -
  have "to_double (rat_of_nat W / rat_of_nat sz) = Num (fl (of_nat W / of_nat sz))"
    using quotient_bounds(1,3) [OF assms] by (rule to_double_bounded(1)) simp
  then show ?thesis using assms(1) by simp
qed

lemma fl_quotient_less_imp:
  assumes "0 < sz" and "W < 2 ^ 32" and "rat_of_nat x < fl (of_nat W / of_nat sz)"
  shows "x * sz < W"
proof (rule ccontr)
  assume "\<not> x * sz < W"
  then have "W \<le> x * sz" by simp
  then have "rat_of_nat W \<le> rat_of_nat x * rat_of_nat sz"
    by (metis of_nat_le_iff of_nat_mult)
  then have q: "rat_of_nat W / rat_of_nat sz \<le> rat_of_nat x"
    using assms(1) by (simp add: pos_divide_le_eq)
  have W53: "W < 2 ^ 53" using assms(2) by (rule less_trans) simp
  have "fl (rat_of_nat W / rat_of_nat sz) \<le> fl (rat_of_nat W)"
    using quotient_bounds(1,2) [OF assms(1,2)] by (rule fl_mono)
  also have "\<dots> = rat_of_nat W" using W53 by (rule fl_of_nat)
  finally have "rat_of_nat x < rat_of_nat W" using assms(3) by simp
  then have "x < W" by (simp only: of_nat_less_iff)
  with W53 have "x < 2 ^ 53" by simp
  then have "fl (rat_of_nat x) = rat_of_nat x" by (rule fl_of_nat)
  moreover have "fl (rat_of_nat W / rat_of_nat sz) \<le> fl (rat_of_nat x)"
    using quotient_bounds(1) [OF assms(1,2)] q by (rule fl_mono)
  ultimately show False using assms(3) by simp
qed

lemma fl_quotient_less:
  assumes "0 < sz" and "sz < 2 ^ 53" and "W < 2 ^ 32" and "x * sz < W"
  shows "rat_of_nat x < fl (of_nat W / of_nat sz)"
proof -
  let ?q = "rat_of_nat W / rat_of_nat sz"
  have sz0: "0 < rat_of_nat sz" using assms(1) by simp
  have "x * sz + 1 \<le> W" using assms(4) by simp
  then have "rat_of_nat (x * sz + 1) \<le> rat_of_nat W" by (simp only: of_nat_le_iff)
  then have "(rat_of_nat x * rat_of_nat sz + 1) / rat_of_nat sz \<le> ?q"
    using sz0 by (intro divide_right_mono) simp_all
  moreover have "(rat_of_nat x * rat_of_nat sz + 1) / rat_of_nat sz = rat_of_nat x + 1 / rat_of_nat sz"
    using sz0 by (simp add: add_divide_distrib)
  ultimately have step: "rat_of_nat x + 1 / rat_of_nat sz \<le> ?q" by simp
  have W0: "0 < W" using assms(4) by simp
  show ?thesis
  proof (cases "1 \<le> ?q")
    case True
    have q53: "?q < 2 ^ 53"
      using quotient_bounds(3) [OF assms(1,3)] by (rule le_less_trans) simp
    have "rat_of_nat W < 2 ^ 32" using assms(3) by (metis of_nat_less_iff of_nat_numeral of_nat_power)
    then have "rat_of_nat W < 2 ^ 53" by (rule less_trans) simp
    then have "?q / 2 ^ 53 < 1 / rat_of_nat sz" using sz0 by (simp add: field_simps)
    moreover have "?q - ?q / 2 ^ 53 \<le> fl ?q" using True q53 by (rule fl_lower)
    ultimately show ?thesis using step by linarith
  next
    case False
    then have "W < sz" using sz0 by (simp add: field_simps)
    with assms(4) have "x * sz < sz" by (rule less_trans)
    then have x: "x = 0" by (cases x) simp_all
    have "rat_of_nat sz < 2 ^ 53" using assms(2) by (metis of_nat_less_iff of_nat_numeral of_nat_power)
    then have "rat_of_nat sz \<le> 2 ^ 1022" by (rule less_imp_le [OF less_le_trans]) (rule pow2_le, simp)
    moreover have "1 \<le> rat_of_nat W" using W0 by simp
    ultimately have "rat_of_nat sz * 1 \<le> 2 ^ 1022 * rat_of_nat W" by (intro mult_mono) simp_all
    then have "1 / 2 ^ 1022 \<le> ?q" using sz0 by (simp add: field_simps)
    then have "(1 / 2 ^ 1022) * 2 ^ 1074 \<le> ?q * 2 ^ 1074" by (intro mult_right_mono) simp_all
    moreover have "(1 / 2 ^ 1022) * 2 ^ 1074 = (2::rat) ^ 52"
    proof -
      have "(2::rat) ^ 1074 = 2 ^ 1022 * 2 ^ 52" by (simp only: power_add [symmetric]) simp
      then show ?thesis by simp
    qed
    ultimately have "2 ^ 52 \<le> ?q * 2 ^ 1074" by simp
    moreover have "0 < ?q" using W0 sz0 by simp
    ultimately have "0 < fl ?q" by (intro fl_pos)
    with x show ?thesis by simp
  qed
qed

subsection \<open>The grid of cubes\<close>

lemma nat_eq_by_less: "(\<And>x. (x < a) = (x < b)) \<Longrightarrow> a = (b::nat)"
proof (rule ccontr)
  assume eq: "\<And>x. (x < a) = (x < b)" and "a \<noteq> b"
  then consider "a < b" | "b < a" by linarith
  then show False
  proof cases
    case 1
    with eq [of a] show False by simp
  next
    case 2
    with eq [of b] show False by simp
  qed
qed

lemma less_quotient: "0 < sz \<Longrightarrow> (rat_of_nat x < rat_of_nat W / rat_of_nat sz) = (x * sz < W)"
proof -
  assume "0 < sz"
  then have "(rat_of_nat x < rat_of_nat W / rat_of_nat sz) = (rat_of_nat x * rat_of_nat sz < rat_of_nat W)"
    by (simp add: pos_less_divide_eq)
  also have "\<dots> = (rat_of_nat (x * sz) < rat_of_nat W)" by simp
  also have "\<dots> = (x * sz < W)" by (simp only: of_nat_less_iff)
  finally show ?thesis .
qed

lemma ceiling_fl_quotient:
  assumes "0 < sz" and "sz < 2 ^ 53" and "W < 2 ^ 32"
  shows "nat \<lceil>fl (rat_of_nat W / rat_of_nat sz)\<rceil> = nat \<lceil>rat_of_nat W / rat_of_nat sz\<rceil>"
proof (rule nat_eq_by_less)
  fix x
  have "(x < nat \<lceil>fl (rat_of_nat W / rat_of_nat sz)\<rceil>) = (rat_of_nat x < fl (rat_of_nat W / rat_of_nat sz))"
    by (simp only: of_nat_less_ceiling)
  also have "\<dots> = (x * sz < W)"
    using fl_quotient_less_imp [OF assms(1,3)] fl_quotient_less [OF assms] by blast
  also have "\<dots> = (rat_of_nat x < rat_of_nat W / rat_of_nat sz)"
    using assms(1) by (simp only: less_quotient)
  also have "\<dots> = (x < nat \<lceil>rat_of_nat W / rat_of_nat sz\<rceil>)"
    by (simp only: of_nat_less_ceiling)
  finally show "(x < nat \<lceil>fl (rat_of_nat W / rat_of_nat sz)\<rceil>) = (x < nat \<lceil>rat_of_nat W / rat_of_nat sz\<rceil>)" .
qed

lemma reset_nrOfCubes:
  assumes "0 < sz"
  shows "nrOfCubesX (reset sz vw vh s) = Num (fl (of_nat (unat vw) / of_nat sz))"
    and "nrOfCubesY (reset sz vw vh s) = Num (fl (of_nat (unat vh) / of_nat sz))"
  using js_div_quotient [OF assms unat32_less] by (simp_all add: reset_def)

lemma setupCubes_reset:
  assumes "0 < sz"
  shows "setupCubes (reset sz vw vh s) =
     Some ((reset sz vw vh s)
       \<lparr>cubes := concat (map (\<lambda>x. map (new_cube x)
                    [0 ..< nat \<lceil>fl (rat_of_nat (unat vh) / rat_of_nat sz)\<rceil>])
                  [0 ..< nat \<lceil>fl (rat_of_nat (unat vw) / rat_of_nat sz)\<rceil>])\<rparr>)"
  unfolding setupCubes_def reset_nrOfCubes [OF assms]
  by (simp add: setupCubes_xs_closed)

lemma mem_cubes_imp:
  assumes "0 < sz" and "setupCubes (reset sz vw vh s) = Some s'" and "c \<in> set (cubes s')"
  shows "\<exists>x y. c = new_cube x y \<and> x * sz < unat vw \<and> y * sz < unat vh"
proof -
  from assms(2,3) obtain x y where c: "c = new_cube x y"
    and x: "x < nat \<lceil>fl (rat_of_nat (unat vw) / rat_of_nat sz)\<rceil>"
    and y: "y < nat \<lceil>fl (rat_of_nat (unat vh) / rat_of_nat sz)\<rceil>"
    unfolding setupCubes_reset [OF assms(1)] by auto
  from x have "rat_of_nat x < fl (rat_of_nat (unat vw) / rat_of_nat sz)"
    by (simp only: of_nat_less_ceiling)
  with assms(1) unat32_less have "x * sz < unat vw" by (rule fl_quotient_less_imp)
  moreover from y have "rat_of_nat y < fl (rat_of_nat (unat vh) / rat_of_nat sz)"
    by (simp only: of_nat_less_ceiling)
  with assms(1) unat32_less have "y * sz < unat vh" by (rule fl_quotient_less_imp)
  ultimately show ?thesis using c by blast
qed

lemma cubes_setupCubes_reset:
  assumes "0 < sz" and "sz < 2 ^ 53"
  shows "map_option cubes (setupCubes (reset sz vw vh s)) =
     Some (concat (map (\<lambda>x. map (new_cube x) [0 ..< nat \<lceil>rat_of_nat (unat vh) / rat_of_nat sz\<rceil>])
       [0 ..< nat \<lceil>rat_of_nat (unat vw) / rat_of_nat sz\<rceil>]))"
  unfolding setupCubes_reset [OF assms(1)] ceiling_fl_quotient [OF assms unat32_less]
  by simp

lemma ceiling_dvd:
  assumes "0 < sz" and "sz dvd W"
  shows "rat_of_nat W / rat_of_nat sz = rat_of_nat (W div sz)"
    and "nat \<lceil>rat_of_nat W / rat_of_nat sz\<rceil> = W div sz"
proof -
  from assms(2) obtain k where k: "W = sz * k" ..
  with assms(1) show "rat_of_nat W / rat_of_nat sz = rat_of_nat (W div sz)" by simp
  then show "nat \<lceil>rat_of_nat W / rat_of_nat sz\<rceil> = W div sz" by simp
qed

lemma fl_quotient_dvd:
  assumes "0 < sz" and "sz dvd W" and "W < 2 ^ 32"
  shows "fl (rat_of_nat W / rat_of_nat sz) = rat_of_nat (W div sz)"
proof -
  have "W div sz \<le> W" by simp
  then have "W div sz < 2 ^ 32" using assms(3) by (rule le_less_trans)
  then have "W div sz < 2 ^ 53" by (rule less_trans) simp
  then have "fl (rat_of_nat (W div sz)) = rat_of_nat (W div sz)" by (rule fl_of_nat)
  then show ?thesis by (simp only: ceiling_dvd(1) [OF assms(1,2)])
qed

subsection \<open>Finite numbers in order\<close>

lemma num_leI: "0 \<le> a \<Longrightarrow> a \<le> b \<Longrightarrow> b \<le> 2 ^ k \<Longrightarrow> num_le k (Num a) (Num b)"
  by (simp add: num_le_def)

lemma num_leE:
  assumes "num_le k x y"
  obtains a b where "x = Num a" and "y = Num b" and "0 \<le> a" and "a \<le> b" and "b \<le> 2 ^ k"
  using assms by (cases x; cases y) (simp_all add: num_le_def)

lemma num_le_js_le: "num_le k x y \<Longrightarrow> js_le x y"
  by (erule num_leE) simp

lemma num_le_weaken: "num_le k x y \<Longrightarrow> k \<le> k' \<Longrightarrow> num_le k' x y"
proof (erule num_leE)
  fix a b
  assume "k \<le> k'" and xy: "x = Num a" "y = Num b" and ab: "0 \<le> a" "a \<le> b" "b \<le> 2 ^ k"
  then have "(2::rat) ^ k \<le> 2 ^ k'" by (intro pow2_le)
  with ab(3) have "b \<le> 2 ^ k'" by (rule order_trans)
  with xy ab show ?thesis by (simp add: num_le_def)
qed

lemma num_le_to_double:
  assumes "0 \<le> a" and "a \<le> b" and "b \<le> 2 ^ k" and "k < 1024"
  shows "num_le k (to_double a) (to_double b)"
proof -
  have b0: "0 \<le> b" using assms(1,2) by simp
  have a2: "a \<le> 2 ^ k" using assms(2,3) by simp
  have "to_double a = Num (fl a)" and "0 \<le> fl a"
    using assms(1) a2 assms(4) by (rule to_double_bounded)+
  moreover have "to_double b = Num (fl b)" and "fl b \<le> 2 ^ k"
    using b0 assms(3,4) by (rule to_double_bounded)+
  moreover have "fl a \<le> fl b" using assms(1,2) by (rule fl_mono)
  ultimately show ?thesis by (simp add: num_le_def)
qed

lemma num_le_mul:
  assumes "num_le 0 c c" and "num_le k x y" and "k < 1024"
  shows "num_le k (js_mul c x) (js_mul c y)"
proof -
  from assms(1) obtain q where c: "c = Num q" and q: "0 \<le> q" "q \<le> 1"
    by (rule num_leE) simp
  from assms(2) obtain a b where xy: "x = Num a" "y = Num b" and ab: "0 \<le> a" "a \<le> b" "b \<le> 2 ^ k"
    by (rule num_leE)
  have b0: "0 \<le> b" using ab by simp
  have "0 \<le> q * a" using q ab by simp
  moreover have "q * a \<le> q * b" using q ab by (intro mult_left_mono)
  moreover have "q * b \<le> 1 * b" using q b0 by (intro mult_right_mono)
  then have "q * b \<le> 2 ^ k" using ab by simp
  ultimately have "num_le k (to_double (q * a)) (to_double (q * b))"
    using assms(3) by (intro num_le_to_double)
  then show ?thesis by (simp add: c xy)
qed

lemma num_le_add:
  assumes "num_le k x y" and "num_le k x' y'" and "Suc k < 1024"
  shows "num_le (Suc k) (js_add x x') (js_add y y')"
proof -
  from assms(1) obtain a b where xy: "x = Num a" "y = Num b" and ab: "0 \<le> a" "a \<le> b" "b \<le> 2 ^ k"
    by (rule num_leE)
  from assms(2) obtain a' b' where xy': "x' = Num a'" "y' = Num b'"
    and ab': "0 \<le> a'" "a' \<le> b'" "b' \<le> 2 ^ k"
    by (rule num_leE)
  have "0 \<le> a + a'" using ab ab' by simp
  moreover have "a + a' \<le> b + b'" using ab ab' by simp
  moreover have "b + b' \<le> 2 ^ Suc k" using ab ab' by simp
  ultimately have "num_le (Suc k) (to_double (a + a')) (to_double (b + b'))"
    using assms(3) by (intro num_le_to_double)
  then show ?thesis by (simp add: xy xy')
qed

lemma num_le_div:
  assumes "num_le k x y" and "1 \<le> d" and "k < 1024"
  shows "num_le k (js_div x (Num d)) (js_div y (Num d))"
proof -
  from assms(1) obtain a b where xy: "x = Num a" "y = Num b" and ab: "0 \<le> a" "a \<le> b" "b \<le> 2 ^ k"
    by (rule num_leE)
  have d0: "0 < d" using assms(2) by simp
  have b0: "0 \<le> b" using ab by simp
  have "0 \<le> a / d" using ab d0 by simp
  moreover have "a / d \<le> b / d" using ab d0 by (intro divide_right_mono) simp_all
  moreover have "b / d \<le> b / 1" using b0 assms(2) by (intro divide_left_mono) simp_all
  then have "b / d \<le> 2 ^ k" using ab by simp
  ultimately have "num_le k (to_double (a / d)) (to_double (b / d))"
    using assms(3) by (intro num_le_to_double)
  then show ?thesis using d0 by (simp add: xy)
qed

lemma num_le_literal:
  assumes "0 \<le> q" and "q \<le> 1"
  shows "num_le 0 (js_literal q) (js_literal q)"
  unfolding js_literal_def using assms by (intro num_le_to_double) simp_all

lemma num_le_of_nat:
  "n \<le> m \<Longrightarrow> m < 2 ^ 53 \<Longrightarrow> num_le 53 (Num (of_nat n)) (Num (of_nat m))"
proof -
  assume "n \<le> m" and "m < 2 ^ 53"
  then have "rat_of_nat n \<le> rat_of_nat m" and "rat_of_nat m \<le> rat_of_nat (2 ^ 53)"
    by (simp_all only: of_nat_le_iff)
  then show ?thesis by (simp add: num_le_def)
qed

subsection \<open>The loops of getAverage on a window inside the buffer\<close>

lemma array_get_nat:
  "array_get pixels (int n) = (if n < length pixels then Some (pixels ! n) else None)"
  by (simp add: array_get_def)

lemma add_pixel_nat:
  "add_pixel W pixels (int x) (int y) (r, g, b) =
     (js_add r (to_number (array_get pixels (int ((x + W * y) * 4)))),
      js_add g (to_number (array_get pixels (int ((x + W * y) * 4 + 1)))),
      js_add b (to_number (array_get pixels (int ((x + W * y) * 4 + 2)))))"
  by (simp add: add_pixel_def Let_def add.commute)

lemma to_number_channel:
  assumes "(x + W * y) * 4 + 2 < length pixels"
  shows "to_number (array_get pixels (int ((x + W * y) * 4))) = Num (of_nat (channel_at W pixels 0 x y))"
    and "to_number (array_get pixels (int ((x + W * y) * 4 + 1))) = Num (of_nat (channel_at W pixels 1 x y))"
    and "to_number (array_get pixels (int ((x + W * y) * 4 + 2))) = Num (of_nat (channel_at W pixels 2 x y))"
  unfolding array_get_nat channel_at_def using assms by simp_all

lemma add_pixel_channels:
  assumes "(x + W * y) * 4 + 2 < length pixels"
  shows "add_pixel W pixels (int x) (int y) (r, g, b) =
     (js_add r (Num (of_nat (channel_at W pixels 0 x y))),
      js_add g (Num (of_nat (channel_at W pixels 1 x y))),
      js_add b (Num (of_nat (channel_at W pixels 2 x y))))"
  unfolding add_pixel_nat to_number_channel [OF assms] ..

lemma add_pixel_in_range:
  assumes "(x + W * y) * 4 + 2 < length pixels"
    and "r + channel_at W pixels 0 x y < 2 ^ 53"
    and "g + channel_at W pixels 1 x y < 2 ^ 53"
    and "b + channel_at W pixels 2 x y < 2 ^ 53"
  shows "add_pixel W pixels (int x) (int y) (Num (of_nat r), Num (of_nat g), Num (of_nat b)) =
     (Num (of_nat (r + channel_at W pixels 0 x y)), Num (of_nat (g + channel_at W pixels 1 x y)),
      Num (of_nat (b + channel_at W pixels 2 x y)))"
  unfolding add_pixel_channels [OF assms(1)] js_add_of_nat [OF assms(2)] js_add_of_nat [OF assms(3)]
    js_add_of_nat [OF assms(4)] ..

lemma getAverage_ys_sum:
  assumes "\<forall>y'. y \<le> y' \<and> y' < y0 + sz \<longrightarrow> (x + W * y') * 4 + 2 < length pixels"
    and "y \<le> y0 + sz"
    and "r + (\<Sum>y' = y ..< y0 + sz. channel_at W pixels 0 x y') < 2 ^ 53"
    and "g + (\<Sum>y' = y ..< y0 + sz. channel_at W pixels 1 x y') < 2 ^ 53"
    and "b + (\<Sum>y' = y ..< y0 + sz. channel_at W pixels 2 x y') < 2 ^ 53"
  shows "getAverage_ys sz W pixels (int x) (int y0) (int y)
       (Num (of_nat r), Num (of_nat g), Num (of_nat b)) =
     (Num (of_nat (r + (\<Sum>y' = y ..< y0 + sz. channel_at W pixels 0 x y'))),
      Num (of_nat (g + (\<Sum>y' = y ..< y0 + sz. channel_at W pixels 1 x y'))),
      Num (of_nat (b + (\<Sum>y' = y ..< y0 + sz. channel_at W pixels 2 x y'))))"
  using assms
proof (induction "y0 + sz - y" arbitrary: y r g b)
  case 0
  then have "y = y0 + sz" by simp
  then show ?case by (simp add: getAverage_ys.simps)
next
  case (Suc n)
  then have lt: "y < y0 + sz" by simp
  with Suc.prems have inr: "(x + W * y) * 4 + 2 < length pixels" by simp
  have split: "(\<Sum>y' = y ..< y0 + sz. channel_at W pixels k x y') =
      channel_at W pixels k x y + (\<Sum>y' = y + 1 ..< y0 + sz. channel_at W pixels k x y')" for k
    using lt by (simp add: sum.atLeast_Suc_lessThan)
  have bnd: "r + channel_at W pixels 0 x y + (\<Sum>y' = y + 1 ..< y0 + sz. channel_at W pixels 0 x y') < 2 ^ 53"
    "g + channel_at W pixels 1 x y + (\<Sum>y' = y + 1 ..< y0 + sz. channel_at W pixels 1 x y') < 2 ^ 53"
    "b + channel_at W pixels 2 x y + (\<Sum>y' = y + 1 ..< y0 + sz. channel_at W pixels 2 x y') < 2 ^ 53"
    using Suc.prems(3,4,5) unfolding split by (simp_all only: add.assoc)
  then have one: "r + channel_at W pixels 0 x y < 2 ^ 53" "g + channel_at W pixels 1 x y < 2 ^ 53"
    "b + channel_at W pixels 2 x y < 2 ^ 53"
    by linarith+
  have step: "getAverage_ys sz W pixels (int x) (int y0) (int y)
        (Num (of_nat r), Num (of_nat g), Num (of_nat b)) =
      getAverage_ys sz W pixels (int x) (int y0) (int (y + 1))
        (add_pixel W pixels (int x) (int y) (Num (of_nat r), Num (of_nat g), Num (of_nat b)))"
    using lt by (subst getAverage_ys.simps) (simp add: add.commute)
  have rest: "getAverage_ys sz W pixels (int x) (int y0) (int (y + 1))
        (Num (of_nat (r + channel_at W pixels 0 x y)), Num (of_nat (g + channel_at W pixels 1 x y)),
         Num (of_nat (b + channel_at W pixels 2 x y))) =
     (Num (of_nat (r + channel_at W pixels 0 x y + (\<Sum>y' = y + 1 ..< y0 + sz. channel_at W pixels 0 x y'))),
      Num (of_nat (g + channel_at W pixels 1 x y + (\<Sum>y' = y + 1 ..< y0 + sz. channel_at W pixels 1 x y'))),
      Num (of_nat (b + channel_at W pixels 2 x y + (\<Sum>y' = y + 1 ..< y0 + sz. channel_at W pixels 2 x y'))))"
  proof (rule Suc.hyps(1))
    show "n = y0 + sz - (y + 1)" using Suc.hyps(2) by simp
    show "\<forall>y'. y + 1 \<le> y' \<and> y' < y0 + sz \<longrightarrow> (x + W * y') * 4 + 2 < length pixels"
      using Suc.prems(1) by simp
    show "y + 1 \<le> y0 + sz" using lt by simp
  qed (rule bnd)+
  show ?case
    unfolding step add_pixel_in_range [OF inr one] rest split by (simp only: add.assoc)
qed

lemma getAverage_xs_sum:
  assumes "\<forall>x' y'. x \<le> x' \<and> x' < x0 + sz \<and> y0 \<le> y' \<and> y' < y0 + sz
      \<longrightarrow> (x' + W * y') * 4 + 2 < length pixels"
    and "x \<le> x0 + sz"
    and "r + (\<Sum>x' = x ..< x0 + sz. \<Sum>y' = y0 ..< y0 + sz. channel_at W pixels 0 x' y') < 2 ^ 53"
    and "g + (\<Sum>x' = x ..< x0 + sz. \<Sum>y' = y0 ..< y0 + sz. channel_at W pixels 1 x' y') < 2 ^ 53"
    and "b + (\<Sum>x' = x ..< x0 + sz. \<Sum>y' = y0 ..< y0 + sz. channel_at W pixels 2 x' y') < 2 ^ 53"
  shows "getAverage_xs sz W pixels (int x0) (int y0) (int x)
       (Num (of_nat r), Num (of_nat g), Num (of_nat b)) =
     (Num (of_nat (r + (\<Sum>x' = x ..< x0 + sz. \<Sum>y' = y0 ..< y0 + sz. channel_at W pixels 0 x' y'))),
      Num (of_nat (g + (\<Sum>x' = x ..< x0 + sz. \<Sum>y' = y0 ..< y0 + sz. channel_at W pixels 1 x' y'))),
      Num (of_nat (b + (\<Sum>x' = x ..< x0 + sz. \<Sum>y' = y0 ..< y0 + sz. channel_at W pixels 2 x' y'))))"
  using assms
proof (induction "x0 + sz - x" arbitrary: x r g b)
  case 0
  then have "x = x0 + sz" by simp
  then show ?case by (simp add: getAverage_xs.simps)
next
  case (Suc n)
  then have lt: "x < x0 + sz" by simp
  have split: "(\<Sum>x' = x ..< x0 + sz. \<Sum>y' = y0 ..< y0 + sz. channel_at W pixels k x' y') =
      (\<Sum>y' = y0 ..< y0 + sz. channel_at W pixels k x y')
        + (\<Sum>x' = x + 1 ..< x0 + sz. \<Sum>y' = y0 ..< y0 + sz. channel_at W pixels k x' y')" for k
    using lt by (simp add: sum.atLeast_Suc_lessThan)
  have bnd: "r + (\<Sum>y' = y0 ..< y0 + sz. channel_at W pixels 0 x y')
        + (\<Sum>x' = x + 1 ..< x0 + sz. \<Sum>y' = y0 ..< y0 + sz. channel_at W pixels 0 x' y') < 2 ^ 53"
    "g + (\<Sum>y' = y0 ..< y0 + sz. channel_at W pixels 1 x y')
        + (\<Sum>x' = x + 1 ..< x0 + sz. \<Sum>y' = y0 ..< y0 + sz. channel_at W pixels 1 x' y') < 2 ^ 53"
    "b + (\<Sum>y' = y0 ..< y0 + sz. channel_at W pixels 2 x y')
        + (\<Sum>x' = x + 1 ..< x0 + sz. \<Sum>y' = y0 ..< y0 + sz. channel_at W pixels 2 x' y') < 2 ^ 53"
    using Suc.prems(3,4,5) unfolding split by (simp_all only: add.assoc)
  then have one: "r + (\<Sum>y' = y0 ..< y0 + sz. channel_at W pixels 0 x y') < 2 ^ 53"
    "g + (\<Sum>y' = y0 ..< y0 + sz. channel_at W pixels 1 x y') < 2 ^ 53"
    "b + (\<Sum>y' = y0 ..< y0 + sz. channel_at W pixels 2 x y') < 2 ^ 53"
    by linarith+
  have step: "getAverage_xs sz W pixels (int x0) (int y0) (int x)
        (Num (of_nat r), Num (of_nat g), Num (of_nat b)) =
      getAverage_xs sz W pixels (int x0) (int y0) (int (x + 1))
        (getAverage_ys sz W pixels (int x) (int y0) (int y0)
           (Num (of_nat r), Num (of_nat g), Num (of_nat b)))"
    using lt by (subst getAverage_xs.simps) (simp add: add.commute)
  have col: "getAverage_ys sz W pixels (int x) (int y0) (int y0)
        (Num (of_nat r), Num (of_nat g), Num (of_nat b)) =
     (Num (of_nat (r + (\<Sum>y' = y0 ..< y0 + sz. channel_at W pixels 0 x y'))),
      Num (of_nat (g + (\<Sum>y' = y0 ..< y0 + sz. channel_at W pixels 1 x y'))),
      Num (of_nat (b + (\<Sum>y' = y0 ..< y0 + sz. channel_at W pixels 2 x y'))))"
  proof (rule getAverage_ys_sum)
    show "\<forall>y'. y0 \<le> y' \<and> y' < y0 + sz \<longrightarrow> (x + W * y') * 4 + 2 < length pixels"
      using Suc.prems(1) lt by simp
    show "y0 \<le> y0 + sz" by simp
  qed (rule one)+
  have rest: "getAverage_xs sz W pixels (int x0) (int y0) (int (x + 1))
     (Num (of_nat (r + (\<Sum>y' = y0 ..< y0 + sz. channel_at W pixels 0 x y'))),
      Num (of_nat (g + (\<Sum>y' = y0 ..< y0 + sz. channel_at W pixels 1 x y'))),
      Num (of_nat (b + (\<Sum>y' = y0 ..< y0 + sz. channel_at W pixels 2 x y')))) =
     (Num (of_nat (r + (\<Sum>y' = y0 ..< y0 + sz. channel_at W pixels 0 x y')
        + (\<Sum>x' = x + 1 ..< x0 + sz. \<Sum>y' = y0 ..< y0 + sz. channel_at W pixels 0 x' y'))),
      Num (of_nat (g + (\<Sum>y' = y0 ..< y0 + sz. channel_at W pixels 1 x y')
        + (\<Sum>x' = x + 1 ..< x0 + sz. \<Sum>y' = y0 ..< y0 + sz. channel_at W pixels 1 x' y'))),
      Num (of_nat (b + (\<Sum>y' = y0 ..< y0 + sz. channel_at W pixels 2 x y')
        + (\<Sum>x' = x + 1 ..< x0 + sz. \<Sum>y' = y0 ..< y0 + sz. channel_at W pixels 2 x' y'))))"
  proof (rule Suc.hyps(1))
    show "n = x0 + sz - (x + 1)" using Suc.hyps(2) by simp
    show "\<forall>x' y'. x + 1 \<le> x' \<and> x' < x0 + sz \<and> y0 \<le> y' \<and> y' < y0 + sz
        \<longrightarrow> (x' + W * y') * 4 + 2 < length pixels"
      using Suc.prems(1) by simp
    show "x + 1 \<le> x0 + sz" using lt by simp
  qed (rule bnd)+
  show ?case
    unfolding step col rest split by (simp only: add.assoc)
qed

lemma window_index_in_range:
  assumes "x < W" and "y < H" and "length pixels = 4 * W * H"
  shows "(x + W * y) * 4 + 2 < length pixels"
proof -
  have "x + W * y < W * Suc y" using assms(1) by simp
  also have "\<dots> \<le> W * H" using assms(2) by (intro mult_le_mono2) simp
  finally show ?thesis using assms(3) by simp
qed

lemma channel_at_le: "channel_at W pixels k x y \<le> 255"
proof -
  have "unat (pixels ! ((x + W * y) * 4 + k)) < 2 ^ LENGTH(8)" by (rule unsigned_less)
  then show ?thesis by (simp add: channel_at_def)
qed

lemma spec_channel_sum_le: "spec_channel_sum sz W pixels px0 py0 k \<le> 255 * (sz * sz)"
proof -
  have "spec_channel_sum sz W pixels px0 py0 k \<le> (\<Sum>x = px0 ..< px0 + sz. \<Sum>y = py0 ..< py0 + sz. 255)"
    unfolding spec_channel_sum_def by (intro sum_mono channel_at_le)
  then show ?thesis by simp
qed

lemma spec_channel_sum_less:
  "255 * (sz * sz) < 2 ^ 53 \<Longrightarrow> spec_channel_sum sz W pixels px0 py0 k < 2 ^ 53"
  using spec_channel_sum_le [of sz W pixels px0 py0 k] by (rule le_less_trans)

lemma getAverage_xs_in_bounds:
  assumes "255 * (sz * sz) < 2 ^ 53" and "px0 + sz \<le> W" and "py0 + sz \<le> H"
    and "length pixels = 4 * W * H"
  shows "getAverage_xs sz W pixels (int px0) (int py0) (int px0) (Num 0, Num 0, Num 0) =
     (Num (of_nat (spec_channel_sum sz W pixels px0 py0 0)),
      Num (of_nat (spec_channel_sum sz W pixels px0 py0 1)),
      Num (of_nat (spec_channel_sum sz W pixels px0 py0 2)))"
proof -
  have inr: "\<forall>x' y'. px0 \<le> x' \<and> x' < px0 + sz \<and> py0 \<le> y' \<and> y' < py0 + sz
      \<longrightarrow> (x' + W * y') * 4 + 2 < length pixels"
  proof (intro allI impI)
    fix x' y'
    assume "px0 \<le> x' \<and> x' < px0 + sz \<and> py0 \<le> y' \<and> y' < py0 + sz"
    with assms(2,3) have "x' < W" and "y' < H" by auto
    then show "(x' + W * y') * 4 + 2 < length pixels"
      using assms(4) by (rule window_index_in_range)
  qed
  have bnd: "0 + (\<Sum>x' = px0 ..< px0 + sz. \<Sum>y' = py0 ..< py0 + sz. channel_at W pixels k x' y') < 2 ^ 53"
    for k
    using spec_channel_sum_less [OF assms(1), of W pixels px0 py0 k]
    by (simp add: spec_channel_sum_def)
  have "getAverage_xs sz W pixels (int px0) (int py0) (int px0)
       (Num (of_nat 0), Num (of_nat 0), Num (of_nat 0)) =
     (Num (of_nat (0 + (\<Sum>x' = px0 ..< px0 + sz. \<Sum>y' = py0 ..< py0 + sz. channel_at W pixels 0 x' y'))),
      Num (of_nat (0 + (\<Sum>x' = px0 ..< px0 + sz. \<Sum>y' = py0 ..< py0 + sz. channel_at W pixels 1 x' y'))),
      Num (of_nat (0 + (\<Sum>x' = px0 ..< px0 + sz. \<Sum>y' = py0 ..< py0 + sz. channel_at W pixels 2 x' y'))))"
    using inr by (rule getAverage_xs_sum) (simp, (rule bnd)+)
  then show ?thesis by (simp add: spec_channel_sum_def)
qed

lemma getAverage_val_in_bounds:
  assumes "255 * (sz * sz) < 2 ^ 53" and "px0 + sz \<le> W" and "py0 + sz \<le> H"
    and "length pixels = 4 * W * H"
  shows "getAverage_val sz W pixels (int px0) (int py0) = spec_luminance sz W pixels px0 py0"
  unfolding getAverage_val_def getAverage_xs_in_bounds [OF assms] spec_luminance_def by simp

subsection \<open>The luminance is a finite number\<close>

lemma fl_one: "fl 1 = 1"
  using fl_pow2 [of 0] by simp

lemma to_double_cases:
  assumes "0 \<le> q"
  shows "to_double q = PInf \<or> to_double q = Num (fl q)"
  using assms by (simp add: to_double_def)

lemma weights_bounded:
  "num_le 0 (js_literal (2126 / 10000)) (js_literal (2126 / 10000))"
  "num_le 0 (js_literal (7152 / 10000)) (js_literal (7152 / 10000))"
  "num_le 0 (js_literal (722 / 10000)) (js_literal (722 / 10000))"
  by (rule num_le_literal; simp)+

lemma weighted_sum_le:
  assumes "num_le k r r'" and "num_le k g g'" and "num_le k b b'" and "k < 1000"
  shows "num_le (Suc (Suc k))
     (js_add (js_add (js_mul (js_literal (2126 / 10000)) r) (js_mul (js_literal (7152 / 10000)) g))
        (js_mul (js_literal (722 / 10000)) b))
     (js_add (js_add (js_mul (js_literal (2126 / 10000)) r') (js_mul (js_literal (7152 / 10000)) g'))
        (js_mul (js_literal (722 / 10000)) b'))"
proof -
  have k: "k < 1024" "Suc k < 1024" "Suc (Suc k) < 1024" using assms(4) by simp_all
  have r: "num_le k (js_mul (js_literal (2126 / 10000)) r) (js_mul (js_literal (2126 / 10000)) r')"
    using weights_bounded(1) assms(1) k(1) by (rule num_le_mul)
  have g: "num_le k (js_mul (js_literal (7152 / 10000)) g) (js_mul (js_literal (7152 / 10000)) g')"
    using weights_bounded(2) assms(2) k(1) by (rule num_le_mul)
  have b: "num_le k (js_mul (js_literal (722 / 10000)) b) (js_mul (js_literal (722 / 10000)) b')"
    using weights_bounded(3) assms(3) k(1) by (rule num_le_mul)
  then have b': "num_le (Suc k) (js_mul (js_literal (722 / 10000)) b) (js_mul (js_literal (722 / 10000)) b')"
    by (rule num_le_weaken) simp
  have "num_le (Suc k)
      (js_add (js_mul (js_literal (2126 / 10000)) r) (js_mul (js_literal (7152 / 10000)) g))
      (js_add (js_mul (js_literal (2126 / 10000)) r') (js_mul (js_literal (7152 / 10000)) g'))"
    using r g k(2) by (rule num_le_add)
  then show ?thesis using b' k(3) by (rule num_le_add)
qed

lemma divisor_cases:
  assumes "0 < sz"
  shows "js_mul (Num (of_nat sz)) (Num (of_nat sz)) = PInf
    \<or> (\<exists>d. 1 \<le> d \<and> js_mul (Num (of_nat sz)) (Num (of_nat sz)) = Num d)"
proof -
  have one: "1 \<le> rat_of_nat sz * rat_of_nat sz"
  proof -
    have "1 \<le> sz * sz" using assms by (simp add: Suc_leI)
    then have "rat_of_nat 1 \<le> rat_of_nat (sz * sz)" by (simp only: of_nat_le_iff)
    then show ?thesis by simp
  qed
  then have "fl 1 \<le> fl (rat_of_nat sz * rat_of_nat sz)" by (intro fl_mono) simp_all
  then have "1 \<le> fl (rat_of_nat sz * rat_of_nat sz)" by (simp only: fl_one)
  moreover have "0 \<le> rat_of_nat sz * rat_of_nat sz" by simp
  then have "to_double (rat_of_nat sz * rat_of_nat sz) = PInf
      \<or> to_double (rat_of_nat sz * rat_of_nat sz) = Num (fl (rat_of_nat sz * rat_of_nat sz))"
    by (rule to_double_cases)
  ultimately show ?thesis by auto
qed

lemma luminance_le:
  assumes "0 < sz" and "num_le k r r'" and "num_le k g g'" and "num_le k b b'" and "k < 1000"
  shows "num_le (Suc (Suc k))
     (js_div
        (js_add (js_add (js_mul (js_literal (2126 / 10000)) r) (js_mul (js_literal (7152 / 10000)) g))
           (js_mul (js_literal (722 / 10000)) b))
        (js_mul (Num (of_nat sz)) (Num (of_nat sz))))
     (js_div
        (js_add (js_add (js_mul (js_literal (2126 / 10000)) r') (js_mul (js_literal (7152 / 10000)) g'))
           (js_mul (js_literal (722 / 10000)) b'))
        (js_mul (Num (of_nat sz)) (Num (of_nat sz))))"
proof -
  have k: "Suc (Suc k) < 1024" using assms(5) by simp
  note s = weighted_sum_le [OF assms(2-5)]
  from divisor_cases [OF assms(1)] show ?thesis
  proof
    assume inf: "js_mul (Num (of_nat sz)) (Num (of_nat sz)) = PInf"
    from s show ?thesis unfolding inf by (rule num_leE) (simp add: num_le_def)
  next
    assume "\<exists>d. 1 \<le> d \<and> js_mul (Num (of_nat sz)) (Num (of_nat sz)) = Num d"
    then obtain d where d: "1 \<le> d" "js_mul (Num (of_nat sz)) (Num (of_nat sz)) = Num d" by auto
    from s d(1) k show ?thesis unfolding d(2) by (rule num_le_div)
  qed
qed

lemma spec_luminance_finite:
  assumes "0 < sz" and "255 * (sz * sz) < 2 ^ 53"
  shows "num_le 55 (spec_luminance sz W pixels px0 py0) (spec_luminance sz W pixels px0 py0)"
proof -
  have ch: "num_le 53 (Num (of_nat (spec_channel_sum sz W pixels px0 py0 k)))
      (Num (of_nat (spec_channel_sum sz W pixels px0 py0 k)))" for k
    using spec_channel_sum_less [OF assms(2)] by (intro num_le_of_nat) simp_all
  have e: "55 = Suc (Suc 53)" by simp
  show ?thesis
    unfolding spec_luminance_def e by (rule luminance_le [OF assms(1) ch ch ch]) simp
qed

lemma num_le_not_NaN: "num_le k x y \<Longrightarrow> \<not> isNaN x \<and> \<not> isNaN y"
  by (erule num_leE) simp

lemma getAverage_in_bounds:
  assumes "0 < sz" and "255 * (sz * sz) < 2 ^ 53" and "px0 + sz \<le> W" and "py0 + sz \<le> H"
    and "length pixels = 4 * W * H"
  shows "getAverage sz W pixels (int px0) (int py0) = spec_luminance sz W pixels px0 py0"
  using num_le_not_NaN [OF spec_luminance_finite [OF assms(1,2), of W pixels px0 py0]]
  by (simp add: getAverage_def getAverage_val_in_bounds [OF assms(2-5)])

lemma window_origin:
  assumes "1 \<le> gx" and "gx * sz \<le> W"
  shows "W - gx * sz + sz \<le> W" and "int W - int gx * int sz = int (W - gx * sz)"
proof -
  have "sz * 1 \<le> sz * gx" using assms(1) by (intro mult_le_mono2)
  then have "sz \<le> gx * sz" by (simp add: mult.commute)
  then show "W - gx * sz + sz \<le> W" using assms(2) by linarith
  show "int W - int gx * int sz = int (W - gx * sz)" using assms(2) by (simp add: of_nat_diff)
qed

lemma pixelate_cube_in_bounds:
  assumes "0 < sz" and "255 * (sz * sz) < 2 ^ 53" and "1 \<le> position_x c"
    and "position_x c * sz \<le> W" and "1 \<le> position_y c" and "position_y c * sz \<le> H"
    and "length pixels = 4 * W * H"
  shows "pixelate_cube sz W H table pixels c =
     c\<lparr>material_color :=
          table (js_round (spec_luminance sz W pixels (W - position_x c * sz) (H - position_y c * sz))),
       scale_z :=
          js_add (js_div (spec_luminance sz W pixels (W - position_x c * sz) (H - position_y c * sz)) (Num 10))
            (js_literal (1 / 100)),
       position_z :=
          js_div
            (js_add (js_div (spec_luminance sz W pixels (W - position_x c * sz) (H - position_y c * sz)) (Num 10))
               (js_literal (1 / 100)))
            (Num 2)\<rparr>"
  unfolding pixelate_cube_def Let_def window_origin(2) [OF assms(3,4)] window_origin(2) [OF assms(5,6)]
    getAverage_in_bounds [OF assms(1,2) window_origin(1) [OF assms(3,4)] window_origin(1) [OF assms(5,6)] assms(7)]
  ..

subsection \<open>The colour table\<close>

lemma setupColors_loop_other:
  "(\<And>j. i \<le> j \<Longrightarrow> j < 256 \<Longrightarrow> k \<noteq> Num (of_nat j)) \<Longrightarrow> setupColors_loop i m k = m k"
proof (induction i m rule: setupColors_loop.induct)
  case (1 i m)
  show ?case
  proof (cases "i < 256")
    case True
    have "setupColors_loop (i + 1) (m(Num (of_nat i) \<mapsto> Rgb i i i)) k =
        (m(Num (of_nat i) \<mapsto> Rgb i i i)) k"
      using True "1.prems" by (intro "1.IH") auto
    moreover have "k \<noteq> Num (of_nat i)" using True "1.prems" by auto
    ultimately show ?thesis using True by (subst setupColors_loop.simps) simp
  next
    case False
    then show ?thesis by (subst setupColors_loop.simps) simp
  qed
qed

lemma setupColors_loop_lookup:
  "i \<le> j \<Longrightarrow> j < 256 \<Longrightarrow> setupColors_loop i m (Num (of_nat j)) = Some (Rgb j j j)"
proof (induction i m rule: setupColors_loop.induct)
  case (1 i m)
  then have lt: "i < 256" by simp
  show ?case
  proof (cases "i = j")
    case True
    have "setupColors_loop (i + 1) (m(Num (of_nat i) \<mapsto> Rgb i i i)) (Num (of_nat j)) =
        (m(Num (of_nat i) \<mapsto> Rgb i i i)) (Num (of_nat j))"
      using True by (intro setupColors_loop_other) auto
    then show ?thesis using True lt by (subst setupColors_loop.simps) simp
  next
    case False
    with "1.prems" have "i + 1 \<le> j" by simp
    with lt "1.prems" have "setupColors_loop (i + 1) (m(Num (of_nat i) \<mapsto> Rgb i i i)) (Num (of_nat j)) =
        Some (Rgb j j j)"
      by (intro "1.IH") auto
    then show ?thesis using lt by (subst setupColors_loop.simps) simp
  qed
qed

lemma setupColors_lookup: "j < 256 \<Longrightarrow> setupColors (Num (of_nat j)) = Some (Rgb j j j)"
  by (simp add: setupColors_def setupColors_loop_lookup)

lemma setupColors_1: "setupColors (Num 1) = Some (Rgb 1 1 1)"
  using setupColors_lookup [of 1] by simp

lemma setupColors_255: "setupColors (Num 255) = Some (Rgb 255 255 255)"
  using setupColors_lookup [of 255] by simp

subsection \<open>Evaluating an operation on given doubles\<close>

lemma to_double_val:
  assumes "2 ^ 52 \<le> q * 2 ^ i" and "q * 2 ^ i < 2 ^ 53" and "i \<le> 1074"
    and "of_int (rne (q * 2 ^ i)) / 2 ^ i = r"
  shows "to_double q = Num r"
proof -
  have q0: "0 \<le> q"
  proof (rule ccontr)
    assume "\<not> 0 \<le> q"
    then have "q * 2 ^ i < 0" by (simp add: mult_neg_pos)
    with assms(1) show False by simp
  qed
  have "q * 1 \<le> q * 2 ^ i" using q0 by (intro mult_left_mono) simp_all
  with assms(2) have "q \<le> 2 ^ 53" by simp
  with q0 have "to_double q = Num (fl q)" by (rule to_double_bounded(1)) simp
  moreover have "fl q = r" using fl_up_eq [OF assms(1-3)] assms(4) by simp
  ultimately show ?thesis by simp
qed

lemma js_literal_val:
  assumes "2 ^ 52 \<le> q * 2 ^ i" and "q * 2 ^ i < 2 ^ 53" and "i \<le> 1074"
    and "of_int (rne (q * 2 ^ i)) / 2 ^ i = r"
  shows "js_literal q = Num r"
  unfolding js_literal_def using assms by (rule to_double_val)

lemma js_add_val:
  assumes "2 ^ 52 \<le> (a + b) * 2 ^ i" and "(a + b) * 2 ^ i < 2 ^ 53" and "i \<le> 1074"
    and "of_int (rne ((a + b) * 2 ^ i)) / 2 ^ i = r"
  shows "js_add (Num a) (Num b) = Num r"
  using to_double_val [OF assms] by simp

lemma js_mul_val:
  assumes "2 ^ 52 \<le> (a * b) * 2 ^ i" and "(a * b) * 2 ^ i < 2 ^ 53" and "i \<le> 1074"
    and "of_int (rne ((a * b) * 2 ^ i)) / 2 ^ i = r"
  shows "js_mul (Num a) (Num b) = Num r"
  using to_double_val [OF assms] by simp

lemma js_div_val:
  assumes "b \<noteq> 0" and "2 ^ 52 \<le> (a / b) * 2 ^ i" and "(a / b) * 2 ^ i < 2 ^ 53" and "i \<le> 1074"
    and "of_int (rne ((a / b) * 2 ^ i)) / 2 ^ i = r"
  shows "js_div (Num a) (Num b) = Num r"
  using to_double_val [OF assms(2-5)] assms(1) by simp

subsection \<open>The constants of the script\<close>

lemma literal_2126: "js_literal (2126 / 10000) = Num (7659722246231740 / 2 ^ 55)"
  by (rule js_literal_val [where i = 55]) (simp_all add: rne_def)

lemma literal_7152: "js_literal (7152 / 10000) = Num (6441948906990757 / 2 ^ 53)"
  by (rule js_literal_val [where i = 53]) (simp_all add: rne_def)

lemma literal_722: "js_literal (722 / 10000) = Num (5202558289538397 / 2 ^ 56)"
  by (rule js_literal_val [where i = 56]) (simp_all add: rne_def)

lemma literal_001: "js_literal (1 / 100) = Num (5764607523034235 / 2 ^ 59)"
  by (rule js_literal_val [where i = 59]) (simp_all add: rne_def)

lemma literal_011: "js_literal (11 / 100) = Num (7926335344172073 / 2 ^ 56)"
  by (rule js_literal_val [where i = 56]) (simp_all add: rne_def)

lemma literal_0055: "js_literal (11 / 200) = Num (7926335344172073 / 2 ^ 57)"
  by (rule js_literal_val [where i = 57]) (simp_all add: rne_def)

lemma size_squared: "js_mul (Num 8) (Num 8) = Num 64"
  by (rule js_mul_val [where i = 46]) (simp_all add: rne_def)

text \<open>\<^verbatim>\<open>1 / 10 + 0.01\<close> is the double \<^verbatim>\<open>0.11\<close>, and half of it is the double \<^verbatim>\<open>0.055\<close>.\<close>

lemma fallback_height:
  "js_add (js_div (Num 1) (Num 10)) (js_literal (1 / 100)) = js_literal (11 / 100)"
proof -
  have "js_div (Num 1) (Num 10) = Num (7205759403792794 / 2 ^ 56)"
    by (rule js_div_val [where i = 56]) (simp_all add: rne_def)
  moreover have "js_add (Num (7205759403792794 / 2 ^ 56)) (Num (5764607523034235 / 2 ^ 59)) =
      Num (7926335344172073 / 2 ^ 56)"
    by (rule js_add_val [where i = 56]) (simp_all add: rne_def)
  ultimately show ?thesis by (simp only: literal_001 literal_011)
qed

lemma fallback_depth: "js_div (js_literal (11 / 100)) (Num 2) = js_literal (11 / 200)"
proof -
  have "js_div (Num (7926335344172073 / 2 ^ 56)) (Num 2) = Num (7926335344172073 / 2 ^ 57)"
    by (rule js_div_val [where i = 57]) (simp_all add: rne_def)
  then show ?thesis by (simp only: literal_011 literal_0055)
qed

subsection \<open>Reads outside the buffer\<close>

lemma add_pixel_NaN: "fst acc = NaN \<Longrightarrow> fst (add_pixel W pixels x y acc) = NaN"
  by (cases acc) (simp add: add_pixel_def Let_def)

lemma getAverage_ys_NaN:
  "fst acc = NaN \<Longrightarrow> fst (getAverage_ys sz W pixels x y0 y acc) = NaN"
proof (induction sz W pixels x y0 y acc rule: getAverage_ys.induct)
  case (1 sz W pixels x y0 y acc)
  show ?case
  proof (cases "y < y0 + int sz")
    case True
    with 1 have "fst (getAverage_ys sz W pixels x y0 (y + 1) (add_pixel W pixels x y acc)) = NaN"
      by (simp add: add_pixel_NaN)
    with True show ?thesis by (subst getAverage_ys.simps) simp
  next
    case False
    with "1.prems" show ?thesis by (subst getAverage_ys.simps) simp
  qed
qed

lemma getAverage_xs_NaN:
  "fst acc = NaN \<Longrightarrow> fst (getAverage_xs sz W pixels x0 y0 x acc) = NaN"
proof (induction sz W pixels x0 y0 x acc rule: getAverage_xs.induct)
  case (1 sz W pixels x0 y0 x acc)
  show ?case
  proof (cases "x < x0 + int sz")
    case True
    with 1 have "fst (getAverage_xs sz W pixels x0 y0 (x + 1) (getAverage_ys sz W pixels x y0 y0 acc)) = NaN"
      by (simp add: getAverage_ys_NaN)
    with True show ?thesis by (subst getAverage_xs.simps) simp
  next
    case False
    with "1.prems" show ?thesis by (subst getAverage_xs.simps) simp
  qed
qed

lemma getAverage_xs_first_undefined:
  assumes "0 < sz" and "array_get pixels ((x0 + int W * y0) * 4) = None"
  shows "fst (getAverage_xs sz W pixels x0 y0 x0 (Num 0, Num 0, Num 0)) = NaN"
proof -
  have "fst (add_pixel W pixels x0 y0 (Num 0, Num 0, Num 0)) = NaN"
    using assms(2) by (simp add: add_pixel_def Let_def)
  then have "fst (getAverage_ys sz W pixels x0 y0 (y0 + 1) (add_pixel W pixels x0 y0 (Num 0, Num 0, Num 0))) = NaN"
    by (rule getAverage_ys_NaN)
  then have "fst (getAverage_ys sz W pixels x0 y0 y0 (Num 0, Num 0, Num 0)) = NaN"
    using assms(1) by (subst getAverage_ys.simps) simp
  then have "fst (getAverage_xs sz W pixels x0 y0 (x0 + 1)
      (getAverage_ys sz W pixels x0 y0 y0 (Num 0, Num 0, Num 0))) = NaN"
    by (rule getAverage_xs_NaN)
  then show ?thesis using assms(1) by (subst getAverage_xs.simps) simp
qed

lemma getAverage_val_first_undefined:
  assumes "0 < sz" and "array_get pixels ((x0 + int W * y0) * 4) = None"
  shows "getAverage_val sz W pixels x0 y0 = NaN"
proof -
  obtain r g b where sums: "getAverage_xs sz W pixels x0 y0 x0 (Num 0, Num 0, Num 0) = (r, g, b)"
    by (cases "getAverage_xs sz W pixels x0 y0 x0 (Num 0, Num 0, Num 0)")
  with getAverage_xs_first_undefined [OF assms] have "r = NaN" by simp
  with sums show ?thesis by (simp add: getAverage_val_def)
qed

lemma pixelate_cube_fallback:
  assumes "getAverage_val sz W pixels (int W - int (position_x c) * int sz)
      (int H - int (position_y c) * int sz) = NaN"
  shows "pixelate_cube sz W H setupColors pixels c =
     c\<lparr>material_color := Some (Rgb 1 1 1), scale_z := js_literal (11 / 100),
       position_z := js_literal (11 / 200)\<rparr>"
proof -
  have avg: "getAverage sz W pixels (int W - int (position_x c) * int sz)
      (int H - int (position_y c) * int sz) = Num 1"
    using assms by (simp add: getAverage_def)
  show ?thesis
    unfolding pixelate_cube_def Let_def avg fallback_height fallback_depth
    by (simp add: setupColors_1)
qed

lemma getAverage_ys_all_NaN:
  "acc = (NaN, NaN, NaN) \<Longrightarrow> getAverage_ys sz W pixels x y0 y acc = (NaN, NaN, NaN)"
proof (induction sz W pixels x y0 y acc rule: getAverage_ys.induct)
  case (1 sz W pixels x y0 y acc)
  show ?case
  proof (cases "y < y0 + int sz")
    case True
    have "add_pixel W pixels x y acc = (NaN, NaN, NaN)"
      using "1.prems" by (simp add: add_pixel_def Let_def)
    with True 1 have "getAverage_ys sz W pixels x y0 (y + 1) (add_pixel W pixels x y acc) = (NaN, NaN, NaN)"
      by simp
    with True show ?thesis by (subst getAverage_ys.simps) simp
  next
    case False
    with "1.prems" show ?thesis by (subst getAverage_ys.simps) simp
  qed
qed

lemma getAverage_xs_all_NaN:
  "acc = (NaN, NaN, NaN) \<Longrightarrow> getAverage_xs sz W pixels x0 y0 x acc = (NaN, NaN, NaN)"
proof (induction sz W pixels x0 y0 x acc rule: getAverage_xs.induct)
  case (1 sz W pixels x0 y0 x acc)
  show ?case
  proof (cases "x < x0 + int sz")
    case True
    have "getAverage_ys sz W pixels x y0 y0 acc = (NaN, NaN, NaN)"
      using "1.prems" by (rule getAverage_ys_all_NaN)
    with True 1 have "getAverage_xs sz W pixels x0 y0 (x + 1) (getAverage_ys sz W pixels x y0 y0 acc) =
        (NaN, NaN, NaN)"
      by simp
    with True show ?thesis by (subst getAverage_xs.simps) simp
  next
    case False
    with "1.prems" show ?thesis by (subst getAverage_xs.simps) simp
  qed
qed

lemma getAverage_xs_first_all_undefined:
  assumes "0 < sz" and "array_get pixels ((x0 + int W * y0) * 4) = None"
    and "array_get pixels ((x0 + int W * y0) * 4 + 1) = None"
    and "array_get pixels ((x0 + int W * y0) * 4 + 2) = None"
  shows "getAverage_xs sz W pixels x0 y0 x0 (Num 0, Num 0, Num 0) = (NaN, NaN, NaN)"
proof -
  have "add_pixel W pixels x0 y0 (Num 0, Num 0, Num 0) = (NaN, NaN, NaN)"
    using assms(2-4) by (simp add: add_pixel_def Let_def)
  then have "getAverage_ys sz W pixels x0 y0 (y0 + 1) (add_pixel W pixels x0 y0 (Num 0, Num 0, Num 0)) =
      (NaN, NaN, NaN)"
    by (rule getAverage_ys_all_NaN)
  then have "getAverage_ys sz W pixels x0 y0 y0 (Num 0, Num 0, Num 0) = (NaN, NaN, NaN)"
    using assms(1) by (subst getAverage_ys.simps) simp
  then have "getAverage_xs sz W pixels x0 y0 (x0 + 1)
      (getAverage_ys sz W pixels x0 y0 y0 (Num 0, Num 0, Num 0)) = (NaN, NaN, NaN)"
    by (rule getAverage_xs_all_NaN)
  then show ?thesis using assms(1) by (subst getAverage_xs.simps) simp
qed

subsection \<open>The image data and the pass over the cubes\<close>

lemma length_concat_uniform:
  "(\<And>x. x \<in> set xs \<Longrightarrow> length (f x) = n) \<Longrightarrow> length (concat (map f xs)) = n * length xs"
  by (induction xs) simp_all

lemma length_image_data: "length (image_data c sw sh) = 4 * sw * sh"
proof -
  have row: "length (concat (map (\<lambda>x. map (canvas_byte c x y) [0 ..< 4]) [0 ..< sw])) = 4 * sw" for y
    by (subst length_concat_uniform [where n = 4]) simp_all
  show ?thesis
    unfolding image_data_def by (subst length_concat_uniform [where n = "4 * sw"]) (simp_all add: row)
qed

lemma pixelate_ok:
  assumes "0 < w s" and "0 < h s"
  shows "pixelate sz s =
     Inr (s\<lparr>canvas := fillRect ((canvas s)\<lparr>fillStyle := ''red''\<rparr>) 50 50,
            cubes := map (pixelate_cube sz (w s) (h s) (colors s) (image_data (canvas s) (w s) (h s)))
              (cubes s)\<rparr>)"
  using assms by (simp add: pixelate_def getImageData_def)

lemma spec_channel_sum_uniform:
  assumes "\<forall>x y. px0 \<le> x \<and> x < px0 + sz \<and> py0 \<le> y \<and> y < py0 + sz
      \<longrightarrow> pixels ! ((x + W * y) * 4 + k) = v"
  shows "spec_channel_sum sz W pixels px0 py0 k = unat v * (sz * sz)"
proof -
  have "spec_channel_sum sz W pixels px0 py0 k =
      (\<Sum>x = px0 ..< px0 + sz. \<Sum>y = py0 ..< py0 + sz. unat v)"
    unfolding spec_channel_sum_def using assms
    by (intro sum.cong refl) (simp add: channel_at_def)
  then show ?thesis by simp
qed

subsection \<open>The sampler is monotone\<close>

lemma fl_saturate: "fl (2 ^ 62 + 255) = 2 ^ 62"
  by (rule fl_down_eq [where i = 10, THEN trans]) (simp_all add: rne_def)

lemma num_le_add_byte:
  assumes "num_le 62 x y" and "u \<le> v" and "v \<le> (255::nat)"
  shows "num_le 62 (js_add x (Num (of_nat u))) (js_add y (Num (of_nat v)))"
proof -
  from assms(1) obtain a b where xy: "x = Num a" "y = Num b" and ab: "0 \<le> a" "a \<le> b" "b \<le> 2 ^ 62"
    by (rule num_leE)
  have "rat_of_nat u \<le> rat_of_nat v" and "rat_of_nat v \<le> rat_of_nat 255"
    using assms(2,3) by (simp_all only: of_nat_le_iff)
  then have uv: "rat_of_nat u \<le> rat_of_nat v" "rat_of_nat v \<le> 255" by simp_all
  have a0: "0 \<le> a + of_nat u" using ab(1) by simp
  have le: "a + of_nat u \<le> b + of_nat v" using ab(2) uv(1) by simp
  have b0: "0 \<le> b + of_nat v" using a0 le by simp
  have top: "b + of_nat v \<le> 2 ^ 62 + 255" using ab(3) uv(2) by simp
  then have b63: "b + of_nat v \<le> 2 ^ 63" by simp
  with le have a63: "a + of_nat u \<le> 2 ^ 63" by simp
  have ta: "to_double (a + of_nat u) = Num (fl (a + of_nat u))" and fa: "0 \<le> fl (a + of_nat u)"
    using a0 a63 by (rule to_double_bounded; simp)+
  have tb: "to_double (b + of_nat v) = Num (fl (b + of_nat v))"
    using b0 b63 by (rule to_double_bounded) simp
  have m1: "fl (a + of_nat u) \<le> fl (b + of_nat v)" using a0 le by (rule fl_mono)
  have "fl (b + of_nat v) \<le> fl (2 ^ 62 + 255)" using b0 top by (rule fl_mono)
  then have m2: "fl (b + of_nat v) \<le> 2 ^ 62" by (simp only: fl_saturate)
  show ?thesis unfolding xy js_add.simps ta tb using fa m1 m2 by (simp add: num_le_def)
qed

lemma channel_at_mono:
  "A ! ((x + W * y) * 4 + k) \<le> B ! ((x + W * y) * 4 + k) \<Longrightarrow> channel_at W A k x y \<le> channel_at W B k x y"
  by (simp add: channel_at_def word_le_nat_alt)

lemma add_pixel_le:
  assumes "(x + W * y) * 4 + 2 < length A" and "(x + W * y) * 4 + 2 < length B"
    and "\<forall>k<3. A ! ((x + W * y) * 4 + k) \<le> B ! ((x + W * y) * 4 + k)"
    and "sums_le p q"
  shows "sums_le (add_pixel W A (int x) (int y) p) (add_pixel W B (int x) (int y) q)"
proof -
  obtain r g b where p: "p = (r, g, b)" by (cases p)
  obtain r' g' b' where q: "q = (r', g', b')" by (cases q)
  from assms(4) have acc: "num_le 62 r r'" "num_le 62 g g'" "num_le 62 b b'"
    by (simp_all add: sums_le_def p q)
  have ch: "channel_at W A k x y \<le> channel_at W B k x y" if "k < 3" for k
    using assms(3) that by (intro channel_at_mono) simp
  have "num_le 62 (js_add r (Num (of_nat (channel_at W A 0 x y))))
      (js_add r' (Num (of_nat (channel_at W B 0 x y))))"
    using acc(1) ch [of 0] channel_at_le by (intro num_le_add_byte) simp_all
  moreover have "num_le 62 (js_add g (Num (of_nat (channel_at W A 1 x y))))
      (js_add g' (Num (of_nat (channel_at W B 1 x y))))"
    using acc(2) ch [of 1] channel_at_le by (intro num_le_add_byte) simp_all
  moreover have "num_le 62 (js_add b (Num (of_nat (channel_at W A 2 x y))))
      (js_add b' (Num (of_nat (channel_at W B 2 x y))))"
    using acc(3) ch [of 2] channel_at_le by (intro num_le_add_byte) simp_all
  ultimately show ?thesis
    unfolding p q add_pixel_channels [OF assms(1)] add_pixel_channels [OF assms(2)]
    by (simp add: sums_le_def)
qed

lemma getAverage_ys_le:
  assumes "\<forall>y'. y \<le> y' \<and> y' < y0 + sz \<longrightarrow>
      (x + W * y') * 4 + 2 < length A \<and> (x + W * y') * 4 + 2 < length B
      \<and> (\<forall>k<3. A ! ((x + W * y') * 4 + k) \<le> B ! ((x + W * y') * 4 + k))"
    and "y \<le> y0 + sz" and "sums_le p q"
  shows "sums_le (getAverage_ys sz W A (int x) (int y0) (int y) p)
     (getAverage_ys sz W B (int x) (int y0) (int y) q)"
  using assms
proof (induction "y0 + sz - y" arbitrary: y p q)
  case 0
  then have "y = y0 + sz" by simp
  with "0.prems"(3) show ?case by (simp add: getAverage_ys.simps)
next
  case (Suc n)
  then have lt: "y < y0 + sz" by simp
  with Suc.prems(1) have here: "(x + W * y) * 4 + 2 < length A" "(x + W * y) * 4 + 2 < length B"
    "\<forall>k<3. A ! ((x + W * y) * 4 + k) \<le> B ! ((x + W * y) * 4 + k)"
    by simp_all
  have step: "getAverage_ys sz W P (int x) (int y0) (int y) acc =
      getAverage_ys sz W P (int x) (int y0) (int (y + 1)) (add_pixel W P (int x) (int y) acc)" for P acc
    using lt by (subst getAverage_ys.simps) (simp add: add.commute)
  have "sums_le (getAverage_ys sz W A (int x) (int y0) (int (y + 1)) (add_pixel W A (int x) (int y) p))
      (getAverage_ys sz W B (int x) (int y0) (int (y + 1)) (add_pixel W B (int x) (int y) q))"
  proof (rule Suc.hyps(1))
    show "n = y0 + sz - (y + 1)" using Suc.hyps(2) by simp
    show "\<forall>y'. y + 1 \<le> y' \<and> y' < y0 + sz \<longrightarrow>
        (x + W * y') * 4 + 2 < length A \<and> (x + W * y') * 4 + 2 < length B
        \<and> (\<forall>k<3. A ! ((x + W * y') * 4 + k) \<le> B ! ((x + W * y') * 4 + k))"
      using Suc.prems(1) by simp
    show "y + 1 \<le> y0 + sz" using lt by simp
    show "sums_le (add_pixel W A (int x) (int y) p) (add_pixel W B (int x) (int y) q)"
      using here Suc.prems(3) by (rule add_pixel_le)
  qed
  then show ?case by (simp only: step)
qed

lemma getAverage_xs_le:
  assumes "\<forall>x' y'. x \<le> x' \<and> x' < x0 + sz \<and> y0 \<le> y' \<and> y' < y0 + sz \<longrightarrow>
      (x' + W * y') * 4 + 2 < length A \<and> (x' + W * y') * 4 + 2 < length B
      \<and> (\<forall>k<3. A ! ((x' + W * y') * 4 + k) \<le> B ! ((x' + W * y') * 4 + k))"
    and "x \<le> x0 + sz" and "sums_le p q"
  shows "sums_le (getAverage_xs sz W A (int x0) (int y0) (int x) p)
     (getAverage_xs sz W B (int x0) (int y0) (int x) q)"
  using assms
proof (induction "x0 + sz - x" arbitrary: x p q)
  case 0
  then have "x = x0 + sz" by simp
  with "0.prems"(3) show ?case by (simp add: getAverage_xs.simps)
next
  case (Suc n)
  then have lt: "x < x0 + sz" by simp
  have step: "getAverage_xs sz W P (int x0) (int y0) (int x) acc =
      getAverage_xs sz W P (int x0) (int y0) (int (x + 1))
        (getAverage_ys sz W P (int x) (int y0) (int y0) acc)" for P acc
    using lt by (subst getAverage_xs.simps) (simp add: add.commute)
  have col: "sums_le (getAverage_ys sz W A (int x) (int y0) (int y0) p)
      (getAverage_ys sz W B (int x) (int y0) (int y0) q)"
  proof (rule getAverage_ys_le)
    show "\<forall>y'. y0 \<le> y' \<and> y' < y0 + sz \<longrightarrow>
        (x + W * y') * 4 + 2 < length A \<and> (x + W * y') * 4 + 2 < length B
        \<and> (\<forall>k<3. A ! ((x + W * y') * 4 + k) \<le> B ! ((x + W * y') * 4 + k))"
      using Suc.prems(1) lt by simp
    show "y0 \<le> y0 + sz" by simp
    show "sums_le p q" by (rule Suc.prems(3))
  qed
  have "sums_le
      (getAverage_xs sz W A (int x0) (int y0) (int (x + 1)) (getAverage_ys sz W A (int x) (int y0) (int y0) p))
      (getAverage_xs sz W B (int x0) (int y0) (int (x + 1)) (getAverage_ys sz W B (int x) (int y0) (int y0) q))"
  proof (rule Suc.hyps(1))
    show "n = x0 + sz - (x + 1)" using Suc.hyps(2) by simp
    show "\<forall>x' y'. x + 1 \<le> x' \<and> x' < x0 + sz \<and> y0 \<le> y' \<and> y' < y0 + sz \<longrightarrow>
        (x' + W * y') * 4 + 2 < length A \<and> (x' + W * y') * 4 + 2 < length B
        \<and> (\<forall>k<3. A ! ((x' + W * y') * 4 + k) \<le> B ! ((x' + W * y') * 4 + k))"
      using Suc.prems(1) by simp
    show "x + 1 \<le> x0 + sz" using lt by simp
    show "sums_le (getAverage_ys sz W A (int x) (int y0) (int y0) p)
        (getAverage_ys sz W B (int x) (int y0) (int y0) q)"
      by (rule col)
  qed
  then show ?case by (simp only: step)
qed

lemma getAverage_val_le:
  assumes "0 < sz" and "px0 + sz \<le> W" and "py0 + sz \<le> H"
    and "length A = 4 * W * H" and "length B = 4 * W * H"
    and "\<forall>x y k. px0 \<le> x \<and> x < px0 + sz \<and> py0 \<le> y \<and> y < py0 + sz \<and> k < 3
          \<longrightarrow> A ! ((x + W * y) * 4 + k) \<le> B ! ((x + W * y) * 4 + k)"
  shows "num_le 64 (getAverage_val sz W A (int px0) (int py0)) (getAverage_val sz W B (int px0) (int py0))"
proof -
  have win: "\<forall>x' y'. px0 \<le> x' \<and> x' < px0 + sz \<and> py0 \<le> y' \<and> y' < py0 + sz \<longrightarrow>
      (x' + W * y') * 4 + 2 < length A \<and> (x' + W * y') * 4 + 2 < length B
      \<and> (\<forall>k<3. A ! ((x' + W * y') * 4 + k) \<le> B ! ((x' + W * y') * 4 + k))"
  proof (intro allI impI)
    fix x' y'
    assume a: "px0 \<le> x' \<and> x' < px0 + sz \<and> py0 \<le> y' \<and> y' < py0 + sz"
    with assms(2,3) have xy: "x' < W" "y' < H" by auto
    have "(x' + W * y') * 4 + 2 < length A" using xy assms(4) by (rule window_index_in_range)
    moreover have "(x' + W * y') * 4 + 2 < length B" using xy assms(5) by (rule window_index_in_range)
    moreover have "\<forall>k<3. A ! ((x' + W * y') * 4 + k) \<le> B ! ((x' + W * y') * 4 + k)"
      using assms(6) a by simp
    ultimately show "(x' + W * y') * 4 + 2 < length A \<and> (x' + W * y') * 4 + 2 < length B
      \<and> (\<forall>k<3. A ! ((x' + W * y') * 4 + k) \<le> B ! ((x' + W * y') * 4 + k))"
      by simp
  qed
  have zero: "sums_le (Num 0, Num 0, Num 0) (Num 0, Num 0, Num 0)"
    by (simp add: sums_le_def num_le_def)
  have s: "sums_le (getAverage_xs sz W A (int px0) (int py0) (int px0) (Num 0, Num 0, Num 0))
      (getAverage_xs sz W B (int px0) (int py0) (int px0) (Num 0, Num 0, Num 0))"
    using win _ zero by (rule getAverage_xs_le) simp
  obtain r g b where A: "getAverage_xs sz W A (int px0) (int py0) (int px0) (Num 0, Num 0, Num 0) = (r, g, b)"
    by (cases "getAverage_xs sz W A (int px0) (int py0) (int px0) (Num 0, Num 0, Num 0)")
  obtain r' g' b' where B: "getAverage_xs sz W B (int px0) (int py0) (int px0) (Num 0, Num 0, Num 0) = (r', g', b')"
    by (cases "getAverage_xs sz W B (int px0) (int py0) (int px0) (Num 0, Num 0, Num 0)")
  from s have acc: "num_le 62 r r'" "num_le 62 g g'" "num_le 62 b b'"
    by (simp_all add: sums_le_def A B)
  have e: "64 = Suc (Suc 62)" by simp
  show ?thesis
    unfolding getAverage_val_def A B prod.case e by (rule luminance_le [OF assms(1) acc]) simp
qed

subsection \<open>Three windows of 8 by 8 pixels, evaluated\<close>

lemma luminance_16320:
  "js_div
     (js_add
        (js_add (js_mul (js_literal (2126 / 10000)) (Num 16320))
           (js_mul (js_literal (7152 / 10000)) (Num 16320)))
        (js_mul (js_literal (722 / 10000)) (Num 16320)))
     (js_mul (Num 8) (Num 8)) = Num (8972014882652159 / 2 ^ 45)"
proof -
  have a: "js_mul (Num (7659722246231740 / 2 ^ 55)) (Num 16320) = Num (7629801456207397 / 2 ^ 41)"
    by (rule js_mul_val [where i = 41]) (simp_all add: rne_def)
  have b: "js_mul (Num (6441948906990757 / 2 ^ 53)) (Num 16320) = Num (6416785044072824 / 2 ^ 39)"
    by (rule js_mul_val [where i = 39]) (simp_all add: rne_def)
  have c: "js_mul (Num (5202558289538397 / 2 ^ 56)) (Num 16320) = Num (5182235796219888 / 2 ^ 42)"
    by (rule js_mul_val [where i = 42]) (simp_all add: rne_def)
  have s1: "js_add (Num (7629801456207397 / 2 ^ 41)) (Num (6416785044072824 / 2 ^ 39)) = Num (8324235408124673 / 2 ^ 39)"
    by (rule js_add_val [where i = 39]) (simp_all add: rne_def)
  have s2: "js_add (Num (8324235408124673 / 2 ^ 39)) (Num (5182235796219888 / 2 ^ 42)) = Num (8972014882652159 / 2 ^ 39)"
    by (rule js_add_val [where i = 39]) (simp_all add: rne_def)
  have l: "js_div (Num (8972014882652159 / 2 ^ 39)) (Num 64) = Num (8972014882652159 / 2 ^ 45)"
    by (rule js_div_val [where i = 45]) (simp_all add: rne_def)
  show ?thesis
    unfolding literal_2126 literal_7152 literal_722 size_squared a b c s1 s2 l ..
qed

lemma outputs_16320:
  "js_round (Num (8972014882652159 / 2 ^ 45)) = Num 255"
  "js_add (js_div (Num (8972014882652159 / 2 ^ 45)) (Num 10)) (js_literal (1 / 100)) = Num (7180426655888834 / 2 ^ 48)"
  "js_div (Num (7180426655888834 / 2 ^ 48)) (Num 2) = Num (7180426655888834 / 2 ^ 49)"
proof -
  have t: "js_div (Num (8972014882652159 / 2 ^ 45)) (Num 10) = Num (7177611906121727 / 2 ^ 48)"
    by (rule js_div_val [where i = 48]) (simp_all add: rne_def)
  have z: "js_add (Num (7177611906121727 / 2 ^ 48)) (Num (5764607523034235 / 2 ^ 59)) = Num (7180426655888834 / 2 ^ 48)"
    by (rule js_add_val [where i = 48]) (simp_all add: rne_def)
  have pz: "js_div (Num (7180426655888834 / 2 ^ 48)) (Num 2) = Num (7180426655888834 / 2 ^ 49)"
    by (rule js_div_val [where i = 49]) (simp_all add: rne_def)
  show "js_round (Num (8972014882652159 / 2 ^ 45)) = Num 255" by simp
  show "js_add (js_div (Num (8972014882652159 / 2 ^ 45)) (Num 10)) (js_literal (1 / 100)) = Num (7180426655888834 / 2 ^ 48)"
    unfolding literal_001 t z ..
  show "js_div (Num (7180426655888834 / 2 ^ 48)) (Num 2) = Num (7180426655888834 / 2 ^ 49)" by (rule pz)
qed



lemma luminance_160:
  "js_div
     (js_add
        (js_add (js_mul (js_literal (2126 / 10000)) (Num 160))
           (js_mul (js_literal (7152 / 10000)) (Num 160)))
        (js_mul (js_literal (722 / 10000)) (Num 160)))
     (js_mul (Num 8) (Num 8)) = Num (5629499534213119 / 2 ^ 51)"
proof -
  have a: "js_mul (Num (7659722246231740 / 2 ^ 55)) (Num 160) = Num (4787326403894838 / 2 ^ 47)"
    by (rule js_mul_val [where i = 47]) (simp_all add: rne_def)
  have b: "js_mul (Num (6441948906990757 / 2 ^ 53)) (Num 160) = Num (8052436133738446 / 2 ^ 46)"
    by (rule js_mul_val [where i = 46]) (simp_all add: rne_def)
  have c: "js_mul (Num (5202558289538397 / 2 ^ 56)) (Num 160) = Num (6503197861922996 / 2 ^ 49)"
    by (rule js_mul_val [where i = 49]) (simp_all add: rne_def)
  have s1: "js_add (Num (4787326403894838 / 2 ^ 47)) (Num (8052436133738446 / 2 ^ 46)) = Num (5223049667842932 / 2 ^ 45)"
    by (rule js_add_val [where i = 45]) (simp_all add: rne_def)
  have s2: "js_add (Num (5223049667842932 / 2 ^ 45)) (Num (6503197861922996 / 2 ^ 49)) = Num (5629499534213119 / 2 ^ 45)"
    by (rule js_add_val [where i = 45]) (simp_all add: rne_def)
  have l: "js_div (Num (5629499534213119 / 2 ^ 45)) (Num 64) = Num (5629499534213119 / 2 ^ 51)"
    by (rule js_div_val [where i = 51]) (simp_all add: rne_def)
  show ?thesis
    unfolding literal_2126 literal_7152 literal_722 size_squared a b c s1 s2 l ..
qed

lemma outputs_160:
  "js_round (Num (5629499534213119 / 2 ^ 51)) = Num 2"
  "js_add (js_div (Num (5629499534213119 / 2 ^ 51)) (Num 10)) (js_literal (1 / 100)) = Num (4683743612465315 / 2 ^ 54)"
  "js_div (Num (4683743612465315 / 2 ^ 54)) (Num 2) = Num (4683743612465315 / 2 ^ 55)"
proof -
  have t: "js_div (Num (5629499534213119 / 2 ^ 51)) (Num 10) = Num (9007199254740990 / 2 ^ 55)"
    by (rule js_div_val [where i = 55]) (simp_all add: rne_def)
  have z: "js_add (Num (9007199254740990 / 2 ^ 55)) (Num (5764607523034235 / 2 ^ 59)) = Num (4683743612465315 / 2 ^ 54)"
    by (rule js_add_val [where i = 54]) (simp_all add: rne_def)
  have pz: "js_div (Num (4683743612465315 / 2 ^ 54)) (Num 2) = Num (4683743612465315 / 2 ^ 55)"
    by (rule js_div_val [where i = 55]) (simp_all add: rne_def)
  show "js_round (Num (5629499534213119 / 2 ^ 51)) = Num 2" by simp
  show "js_add (js_div (Num (5629499534213119 / 2 ^ 51)) (Num 10)) (js_literal (1 / 100)) = Num (4683743612465315 / 2 ^ 54)"
    unfolding literal_001 t z ..
  show "js_div (Num (4683743612465315 / 2 ^ 54)) (Num 2) = Num (4683743612465315 / 2 ^ 55)" by (rule pz)
qed


lemma spec_luminance_uniform_8:
  assumes "\<forall>x y k. px0 \<le> x \<and> x < px0 + 8 \<and> py0 \<le> y \<and> y < py0 + 8 \<and> k < 3
      \<longrightarrow> pixels ! ((x + W * y) * 4 + k) = v"
  shows "spec_luminance 8 W pixels px0 py0 =
     js_div
       (js_add
          (js_add (js_mul (js_literal (2126 / 10000)) (Num (of_nat (unat v * 64))))
             (js_mul (js_literal (7152 / 10000)) (Num (of_nat (unat v * 64)))))
          (js_mul (js_literal (722 / 10000)) (Num (of_nat (unat v * 64)))))
       (js_mul (Num 8) (Num 8))"
proof -
  have "spec_channel_sum 8 W pixels px0 py0 k = unat v * (8 * 8)" if "k < 3" for k
    using assms that by (intro spec_channel_sum_uniform) blast
  then have "spec_channel_sum 8 W pixels px0 py0 0 = unat v * 64"
    and "spec_channel_sum 8 W pixels px0 py0 1 = unat v * 64"
    and "spec_channel_sum 8 W pixels px0 py0 2 = unat v * 64"
    by simp_all
  then show ?thesis unfolding spec_luminance_def by simp
qed

lemma spec_luminance_saturated:
  assumes "\<forall>x y k. px0 \<le> x \<and> x < px0 + 8 \<and> py0 \<le> y \<and> y < py0 + 8 \<and> k < 3
      \<longrightarrow> pixels ! ((x + W * y) * 4 + k) = 255"
  shows "spec_luminance 8 W pixels px0 py0 = Num (8972014882652159 / 2 ^ 45)"
  using spec_luminance_uniform_8 [OF assms] luminance_16320 by simp


lemma pixelate_cube_saturated:
  assumes "1 \<le> position_x c" and "position_x c * 8 \<le> W"
    and "1 \<le> position_y c" and "position_y c * 8 \<le> H" and "length pixels = 4 * W * H"
    and "\<forall>x y k. W - position_x c * 8 \<le> x \<and> x < W - position_x c * 8 + 8
          \<and> H - position_y c * 8 \<le> y \<and> y < H - position_y c * 8 + 8 \<and> k < 3
          \<longrightarrow> pixels ! ((x + W * y) * 4 + k) = 255"
  shows "pixelate_cube 8 W H setupColors pixels c =
     c\<lparr>material_color := Some (Rgb 255 255 255), scale_z := Num (7180426655888834 / 2 ^ 48),
       position_z := Num (7180426655888834 / 2 ^ 49)\<rparr>"
proof -
  have sz: "(0::nat) < 8" "255 * (8 * 8) < (2::nat) ^ 53" by simp_all
  show ?thesis
    unfolding pixelate_cube_in_bounds [OF sz assms(1-5)] spec_luminance_saturated [OF assms(6)]
      outputs_16320 setupColors_255 ..
qed

subsection \<open>The grid of a 640 by 480 video\<close>

lemma grid_640_480:
  "setupCubes (reset 8 640 480 start) =
     Some ((reset 8 640 480 start)\<lparr>cubes := concat (map (\<lambda>x. map (new_cube x) [0 ..< 60]) [0 ..< 80])\<rparr>)"
proof -
  have "fl (rat_of_nat (unat (640 :: 32 word)) / rat_of_nat 8) = rat_of_nat (unat (640 :: 32 word) div 8)"
    by (rule fl_quotient_dvd) simp_all
  moreover have "fl (rat_of_nat (unat (480 :: 32 word)) / rat_of_nat 8) = rat_of_nat (unat (480 :: 32 word) div 8)"
    by (rule fl_quotient_dvd) simp_all
  ultimately show ?thesis
    unfolding setupCubes_reset [of 8 640 480 start, simplified] by simp
qed

lemma mem_grid:
  "x < n \<Longrightarrow> y < m \<Longrightarrow> new_cube x y \<in> set (concat (map (\<lambda>x. map (new_cube x) [0 ..< m]) [0 ..< n]))"
  by (simp, intro bexI [where x = x] imageI) simp_all

lemma setupCubes_globals:
  assumes "setupCubes s = Some s'"
  shows "w s' = w s" and "h s' = h s" and "colors s' = colors s" and "canvas s' = canvas s"
    and "nrOfCubesX s' = nrOfCubesX s" and "nrOfCubesY s' = nrOfCubesY s"
  using assms by (auto simp: setupCubes_def)

lemma reset_globals:
  "w (reset sz vw vh s) = unat vw" "h (reset sz vw vh s) = unat vh"
  "colors (reset sz vw vh s) = colors s" "cubes (reset sz vw vh s) = cubes s"
  "canvas (reset sz vw vh s) = canvas_resize (unat vw) (unat vh)"
  by (simp_all add: reset_def)

lemma setupCubes_length:
  assumes "0 < sz" and "sz < 2 ^ 53"
  shows "\<exists>s'. setupCubes (reset sz vw vh s) = Some s'
     \<and> length (cubes s') =
         nat \<lceil>rat_of_nat (unat vw) / rat_of_nat sz\<rceil> * nat \<lceil>rat_of_nat (unat vh) / rat_of_nat sz\<rceil>"
proof -
  from cubes_setupCubes_reset [OF assms, of vw vh s] obtain s' where
    s': "setupCubes (reset sz vw vh s) = Some s'"
    and c: "cubes s' = concat (map (\<lambda>x. map (new_cube x) [0 ..< nat \<lceil>rat_of_nat (unat vh) / rat_of_nat sz\<rceil>])
        [0 ..< nat \<lceil>rat_of_nat (unat vw) / rat_of_nat sz\<rceil>])"
    by (cases "setupCubes (reset sz vw vh s)") auto
  have "length (cubes s') =
      nat \<lceil>rat_of_nat (unat vw) / rat_of_nat sz\<rceil> * nat \<lceil>rat_of_nat (unat vh) / rat_of_nat sz\<rceil>"
    unfolding c by (rule length_concat_const)
  with s' show ?thesis by blast
qed

lemma quotient_22_5: "fl (45 / 2) = 45 / 2"
  by (rule fl_up_eq [where i = 48, THEN trans]) (simp_all add: rne_def)

lemma setupColors_2: "setupColors (Num 2) = Some (Rgb 2 2 2)"
  using setupColors_lookup [of 2] by simp


lemma literal_25_6: "js_literal (256 / 10) = Num (7205759403792794 / 2 ^ 48)"
  by (rule js_literal_val [where i = 48]) (simp_all add: rne_def)

lemma literal_12_8: "js_literal (128 / 10) = Num (7205759403792794 / 2 ^ 49)"
  by (rule js_literal_val [where i = 49]) (simp_all add: rne_def)

lemma pixelate_cube_frame:
  "pixelate_cube sz W H table pixels c =
     c\<lparr>material_color := material_color (pixelate_cube sz W H table pixels c),
       scale_z := scale_z (pixelate_cube sz W H table pixels c),
       position_z := position_z (pixelate_cube sz W H table pixels c)\<rparr>"
  by (simp add: pixelate_cube_def Let_def)

section \<open>The claims\<close>

text \<open>
  Claim C1, amended. For every cube created by \<^verbatim>\<open>setupCubes\<close> whose grid coordinates
  are both at least 1, the window that \<^verbatim>\<open>pixelate\<close> hands to \<^verbatim>\<open>getAverage\<close>, with origin
  \<open>px0 = w - gx * size\<close> and \<open>py0 = h - gy * size\<close>, lies within \<open>[0, w) \<times> [0, h)\<close>, where
  \<open>w\<close> and \<open>h\<close> are the width and the height of the video.
\<close>

theorem sampled_window_inside:
  assumes "0 < sz" and "setupCubes (reset sz vw vh s) = Some s'"
    and "c \<in> set (cubes s')" and "1 \<le> position_x c" and "1 \<le> position_y c"
  shows "w s' = unat vw \<and> h s' = unat vh
     \<and> 0 \<le> int (w s') - int (position_x c) * int sz
     \<and> int (w s') - int (position_x c) * int sz + int sz \<le> int (w s')
     \<and> 0 \<le> int (h s') - int (position_y c) * int sz
     \<and> int (h s') - int (position_y c) * int sz + int sz \<le> int (h s')"
proof -
  have wh: "w s' = unat vw" "h s' = unat vh"
    using setupCubes_globals(1,2) [OF assms(2)] by (simp_all add: reset_globals)
  from mem_cubes_imp [OF assms(1,2,3)] obtain x y where c: "c = new_cube x y"
    and x: "x * sz < unat vw" and y: "y * sz < unat vh"
    by blast
  from c assms(4,5) have "1 \<le> x" and "1 \<le> y" by (simp_all add: new_cube_def)
  then have "sz \<le> x * sz" and "sz \<le> y * sz" by simp_all
  then have "int sz \<le> int x * int sz" and "int sz \<le> int y * int sz"
    by (metis of_nat_le_iff of_nat_mult)+
  moreover from x y have "int x * int sz < int (unat vw)" and "int y * int sz < int (unat vh)"
    by (metis of_nat_less_iff of_nat_mult)+
  ultimately show ?thesis unfolding wh using c by (simp add: new_cube_def)
qed

theorem sampled_window_inside_witness:
  "(0::nat) < 8
     \<and> (\<exists>s'. setupCubes (reset 8 640 480 start) = Some s'
          \<and> new_cube 1 1 \<in> set (cubes s')
          \<and> 1 \<le> position_x (new_cube 1 1) \<and> 1 \<le> position_y (new_cube 1 1)
          \<and> int (w s') - int (position_x (new_cube 1 1)) * int 8 = 632
          \<and> int (h s') - int (position_y (new_cube 1 1)) * int 8 = 472
          \<and> 0 \<le> int (w s') - int (position_x (new_cube 1 1)) * int 8
          \<and> int (w s') - int (position_x (new_cube 1 1)) * int 8 + int 8 \<le> int (w s')
          \<and> 0 \<le> int (h s') - int (position_y (new_cube 1 1)) * int 8
          \<and> int (h s') - int (position_y (new_cube 1 1)) * int 8 + int 8 \<le> int (h s'))"
proof -
  define s' where
    "s' = (reset 8 640 480 start)\<lparr>cubes := concat (map (\<lambda>x. map (new_cube x) [0 ..< 60]) [0 ..< 80])\<rparr>"
  have g: "setupCubes (reset 8 640 480 start) = Some s'" unfolding s'_def by (rule grid_640_480)
  have "cubes s' = concat (map (\<lambda>x. map (new_cube x) [0 ..< 60]) [0 ..< 80])"
    unfolding s'_def by simp
  moreover have "new_cube 1 1 \<in> set (concat (map (\<lambda>x. map (new_cube x) [0 ..< 60]) [0 ..< 80]))"
    by (rule mem_grid) simp_all
  ultimately have m: "new_cube 1 1 \<in> set (cubes s')" by simp
  have p: "1 \<le> position_x (new_cube 1 1)" "1 \<le> position_y (new_cube 1 1)"
    by (simp_all add: new_cube_def)
  have z: "(0::nat) < 8" by simp
  have wh: "w s' = 640" "h s' = 480" unfolding s'_def by (simp_all add: reset_def)
  have o: "int (w s') - int (position_x (new_cube 1 1)) * int 8 = 632"
    "int (h s') - int (position_y (new_cube 1 1)) * int 8 = 472"
    unfolding wh by (simp_all add: new_cube_def)
  from sampled_window_inside [OF z g m p] g m p o z show ?thesis
    by (intro conjI exI [of _ s']) simp_all
qed

text \<open>
  Claim C1 as stated fails for the cube at grid position \<open>(0, 0)\<close> of a 640 by 480 video: its
  window starts at \<open>(640, 480)\<close>, outside \<open>[0, 640) \<times> [0, 480)\<close>.
\<close>

theorem sampled_window_outside_counterexample:
  "setupCubes (reset 8 640 480 start) \<noteq> None
     \<and> new_cube 0 0 \<in> set (cubes (the (setupCubes (reset 8 640 480 start))))
     \<and> int (w (the (setupCubes (reset 8 640 480 start)))) - int (position_x (new_cube 0 0)) * int 8 = 640
     \<and> int (h (the (setupCubes (reset 8 640 480 start)))) - int (position_y (new_cube 0 0)) * int 8 = 480
     \<and> \<not> int (w (the (setupCubes (reset 8 640 480 start)))) - int (position_x (new_cube 0 0)) * int 8
          < int (w (the (setupCubes (reset 8 640 480 start))))
     \<and> \<not> int (h (the (setupCubes (reset 8 640 480 start)))) - int (position_y (new_cube 0 0)) * int 8
          < int (h (the (setupCubes (reset 8 640 480 start))))"
proof -
  define s' where
    "s' = (reset 8 640 480 start)\<lparr>cubes := concat (map (\<lambda>x. map (new_cube x) [0 ..< 60]) [0 ..< 80])\<rparr>"
  have g: "setupCubes (reset 8 640 480 start) = Some s'" unfolding s'_def by (rule grid_640_480)
  have "cubes s' = concat (map (\<lambda>x. map (new_cube x) [0 ..< 60]) [0 ..< 80])"
    unfolding s'_def by simp
  moreover have "new_cube 0 0 \<in> set (concat (map (\<lambda>x. map (new_cube x) [0 ..< 60]) [0 ..< 80]))"
    by (rule mem_grid) simp_all
  ultimately have m: "new_cube 0 0 \<in> set (cubes s')" by simp
  have wh: "w s' = 640" "h s' = 480" unfolding s'_def by (simp_all add: reset_def)
  have "int (w s') - int (position_x (new_cube 0 0)) * int 8 = 640"
    and "int (h s') - int (position_y (new_cube 0 0)) * int 8 = 480"
    and "\<not> int (w s') - int (position_x (new_cube 0 0)) * int 8 < int (w s')"
    and "\<not> int (h s') - int (position_y (new_cube 0 0)) * int 8 < int (h s')"
    unfolding wh by (simp_all add: new_cube_def)
  with m show ?thesis unfolding g option.sel by simp
qed

text \<open>
  Claim C2, amended. \<^verbatim>\<open>reset\<close> stores the quotients \<open>W / size\<close> and \<open>H / size\<close> in
  \<^verbatim>\<open>nrOfCubesX\<close> and \<^verbatim>\<open>nrOfCubesY\<close> as JavaScript's division gives them (the double
  nearest to the quotient), without rounding them down to an integer, and \<^verbatim>\<open>setupCubes\<close>
  returns with \<open>\<lceil>W / size\<rceil> * \<lceil>H / size\<rceil>\<close> cubes. Where \<open>size\<close> divides both \<open>W\<close> and \<open>H\<close>
  these are \<open>cols = \<lfloor>W / size\<rfloor>\<close>, \<open>rows = \<lfloor>H / size\<rfloor>\<close> and \<open>cols * rows\<close> cubes. Here \<open>W\<close> and
  \<open>H\<close> are the width and height of the video and \<open>size\<close> is a positive integer that a
  double holds exactly.
\<close>

theorem grid_builder_count:
  assumes "0 < sz" and "sz < 2 ^ 53"
  shows "nrOfCubesX (reset sz vw vh s) = Num (fl (of_nat (unat vw) / of_nat sz))
     \<and> nrOfCubesY (reset sz vw vh s) = Num (fl (of_nat (unat vh) / of_nat sz))
     \<and> (\<exists>s'. setupCubes (reset sz vw vh s) = Some s'
          \<and> length (cubes s') =
              nat \<lceil>rat_of_nat (unat vw) / of_nat sz\<rceil> * nat \<lceil>rat_of_nat (unat vh) / of_nat sz\<rceil>
          \<and> (sz dvd unat vw \<and> sz dvd unat vh \<longrightarrow>
                nrOfCubesX (reset sz vw vh s) = Num (of_nat (unat vw div sz))
                \<and> nrOfCubesY (reset sz vw vh s) = Num (of_nat (unat vh div sz))
                \<and> length (cubes s') = (unat vw div sz) * (unat vh div sz)))"
proof -
  note n = reset_nrOfCubes [OF assms(1), of vw vh s]
  from setupCubes_length [OF assms, of vw vh s] obtain s' where
    s': "setupCubes (reset sz vw vh s) = Some s'"
    and len: "length (cubes s') =
      nat \<lceil>rat_of_nat (unat vw) / of_nat sz\<rceil> * nat \<lceil>rat_of_nat (unat vh) / of_nat sz\<rceil>"
    by blast
  have "nrOfCubesX (reset sz vw vh s) = Num (of_nat (unat vw div sz))
      \<and> nrOfCubesY (reset sz vw vh s) = Num (of_nat (unat vh div sz))
      \<and> length (cubes s') = (unat vw div sz) * (unat vh div sz)"
    if d: "sz dvd unat vw \<and> sz dvd unat vh"
  proof -
    from d have dw: "sz dvd unat vw" and dh: "sz dvd unat vh" by simp_all
    have "nrOfCubesX (reset sz vw vh s) = Num (of_nat (unat vw div sz))"
      unfolding n(1) fl_quotient_dvd [OF assms(1) dw unat32_less] ..
    moreover have "nrOfCubesY (reset sz vw vh s) = Num (of_nat (unat vh div sz))"
      unfolding n(2) fl_quotient_dvd [OF assms(1) dh unat32_less] ..
    moreover have "length (cubes s') = (unat vw div sz) * (unat vh div sz)"
      unfolding len ceiling_dvd(2) [OF assms(1) dw] ceiling_dvd(2) [OF assms(1) dh] ..
    ultimately show ?thesis by simp
  qed
  with n s' len show ?thesis by blast
qed

theorem grid_builder_count_witness:
  "(0::nat) < 8 \<and> (8::nat) < 2 ^ 53 \<and> 8 dvd unat (640 :: 32 word) \<and> 8 dvd unat (480 :: 32 word)
     \<and> nrOfCubesX (reset 8 640 480 start) = Num 80
     \<and> nrOfCubesY (reset 8 640 480 start) = Num 60
     \<and> (\<exists>s'. setupCubes (reset 8 640 480 start) = Some s' \<and> length (cubes s') = 4800)"
proof -
  have h: "(0::nat) < 8" "(8::nat) < 2 ^ 53" by simp_all
  have d: "8 dvd unat (640 :: 32 word)" "8 dvd unat (480 :: 32 word)" by simp_all
  from grid_builder_count [OF h, of 640 480 start] obtain s' where
    "setupCubes (reset 8 640 480 start) = Some s'"
    and "8 dvd unat (640 :: 32 word) \<and> 8 dvd unat (480 :: 32 word) \<longrightarrow>
      nrOfCubesX (reset 8 640 480 start) = Num (of_nat (unat (640 :: 32 word) div 8))
      \<and> nrOfCubesY (reset 8 640 480 start) = Num (of_nat (unat (480 :: 32 word) div 8))
      \<and> length (cubes s') = (unat (640 :: 32 word) div 8) * (unat (480 :: 32 word) div 8)"
    by blast
  with d have "setupCubes (reset 8 640 480 start) = Some s'"
    and "nrOfCubesX (reset 8 640 480 start) = Num 80"
    and "nrOfCubesY (reset 8 640 480 start) = Num 60"
    and "length (cubes s') = 4800"
    by simp_all
  with h d show ?thesis by blast
qed

text \<open>
  Claim C2 as stated fails for a 320 by 180 video: \<^verbatim>\<open>nrOfCubesY\<close> is 22.5, not 22, and
  920 cubes are created, not \<open>40 * 22 = 880\<close>.
\<close>

theorem grid_builder_floor_counterexample:
  "nrOfCubesY (reset 8 320 180 start) = Num (45 / 2)
     \<and> \<lfloor>(180::rat) / 8\<rfloor> = 22
     \<and> setupCubes (reset 8 320 180 start) \<noteq> None
     \<and> length (cubes (the (setupCubes (reset 8 320 180 start)))) = 920
     \<and> nat \<lfloor>(320::rat) / 8\<rfloor> * nat \<lfloor>(180::rat) / 8\<rfloor> = 880"
proof -
  have "nrOfCubesY (reset 8 320 180 start) = Num (45 / 2)"
    using reset_nrOfCubes(2) [of 8 320 180 start] by (simp add: quotient_22_5)
  moreover from setupCubes_length [of 8 320 180 start] obtain s' where
    "setupCubes (reset 8 320 180 start) = Some s'" and "length (cubes s') = 920"
    by auto
  ultimately show ?thesis by simp
qed

text \<open>
  Claim C3. On a frame of positive width and height \<^verbatim>\<open>pixelate\<close> succeeds, reads
  \<open>4 * w * h\<close> bytes of image data, and updates every cube with grid coordinates
  \<open>(gx, gy)\<close> from the value of \<^verbatim>\<open>getAverage\<close> at the mirrored origin
  \<open>px0 = w - gx * size\<close>, \<open>py0 = h - gy * size\<close>.
\<close>

theorem pixelate_mirrored_origin:
  assumes "0 < w s" and "0 < h s"
  shows "\<exists>pixels s'. getImageData (canvas s) (w s) (h s) = Inr pixels
     \<and> length pixels = 4 * w s * h s
     \<and> pixelate sz s = Inr s'
     \<and> cubes s' =
         map (\<lambda>c. let col = getAverage sz (w s) pixels (int (w s) - int (position_x c) * int sz)
                              (int (h s) - int (position_y c) * int sz)
                  in c\<lparr>material_color := colors s (js_round col),
                       scale_z := js_add (js_div col (Num 10)) (js_literal (1 / 100)),
                       position_z := js_div (js_add (js_div col (Num 10)) (js_literal (1 / 100))) (Num 2)\<rparr>)
           (cubes s)"
proof -
  have "getImageData (canvas s) (w s) (h s) = Inr (image_data (canvas s) (w s) (h s))"
    using assms by (simp add: getImageData_def)
  moreover have "length (image_data (canvas s) (w s) (h s)) = 4 * w s * h s"
    by (rule length_image_data)
  moreover note pixelate_ok [OF assms, of sz]
  ultimately show ?thesis by (simp add: pixelate_cube_def Let_def)
qed

theorem pixelate_mirrored_origin_witness:
  "\<exists>s0. setupCubes (reset 8 640 480 start) = Some s0 \<and> 0 < w s0 \<and> 0 < h s0
   \<and> (\<exists>pixels s'. getImageData (canvas s0) 640 480 = Inr pixels
     \<and> length pixels = 4 * 640 * 480
     \<and> pixelate 8 s0 = Inr s'
     \<and> cubes s' =
         map (\<lambda>c. let col = getAverage 8 640 pixels (int 640 - int (position_x c) * int 8)
                              (int 480 - int (position_y c) * int 8)
                  in c\<lparr>material_color := setupColors (js_round col),
                       scale_z := js_add (js_div col (Num 10)) (js_literal (1 / 100)),
                       position_z := js_div (js_add (js_div col (Num 10)) (js_literal (1 / 100))) (Num 2)\<rparr>)
           (cubes s0))"
proof -
  define s0 where
    "s0 = (reset 8 640 480 start)\<lparr>cubes := concat (map (\<lambda>x. map (new_cube x) [0 ..< 60]) [0 ..< 80])\<rparr>"
  have g: "setupCubes (reset 8 640 480 start) = Some s0" unfolding s0_def by (rule grid_640_480)
  have e: "w s0 = 640" "h s0 = 480" "colors s0 = setupColors"
    unfolding s0_def by (simp_all add: reset_def start_def)
  have h: "0 < w s0" "0 < h s0" unfolding e by simp_all
  from pixelate_mirrored_origin [OF h, of 8]
  have "\<exists>pixels s'. getImageData (canvas s0) 640 480 = Inr pixels
     \<and> length pixels = 4 * 640 * 480
     \<and> pixelate 8 s0 = Inr s'
     \<and> cubes s' =
         map (\<lambda>c. let col = getAverage 8 640 pixels (int 640 - int (position_x c) * int 8)
                              (int 480 - int (position_y c) * int 8)
                  in c\<lparr>material_color := setupColors (js_round col),
                       scale_z := js_add (js_div col (Num 10)) (js_literal (1 / 100)),
                       position_z := js_div (js_add (js_div col (Num 10)) (js_literal (1 / 100))) (Num 2)\<rparr>)
           (cubes s0)"
    unfolding e .
  with g h show ?thesis by (intro exI [of _ s0] conjI)
qed



text \<open>
  On a window of 8 by 8 pixels whose three channel sums are 160 (rows of grey 2 and grey 3
  in turn, say) the luminance is \<open>2.4999999999999996\<close>, not \<open>2.5\<close>: the sampler writes
  the colour of index 2, the height \<open>0.25999999999999995\<close> and the depth offset
  \<open>0.12999999999999998\<close>.
\<close>

lemma frame_sampler_rounds_down:
  assumes "1 \<le> position_x c" and "position_x c * 8 \<le> W"
    and "1 \<le> position_y c" and "position_y c * 8 \<le> H" and "length pixels = 4 * W * H"
    and "spec_channel_sum 8 W pixels (W - position_x c * 8) (H - position_y c * 8) 0 = 160"
    and "spec_channel_sum 8 W pixels (W - position_x c * 8) (H - position_y c * 8) 1 = 160"
    and "spec_channel_sum 8 W pixels (W - position_x c * 8) (H - position_y c * 8) 2 = 160"
  shows "pixelate_cube 8 W H setupColors pixels c =
     c\<lparr>material_color := Some (Rgb 2 2 2), scale_z := Num (4683743612465315 / 2 ^ 54),
       position_z := Num (4683743612465315 / 2 ^ 55)\<rparr>"
proof -
  have sz: "(0::nat) < 8" "255 * (8 * 8) < (2::nat) ^ 53" by simp_all
  have L: "spec_luminance 8 W pixels (W - position_x c * 8) (H - position_y c * 8) =
      Num (5629499534213119 / 2 ^ 51)"
    unfolding spec_luminance_def assms(6-8) using luminance_160 by simp
  show ?thesis
    unfolding pixelate_cube_in_bounds [OF sz assms(1-5)] L outputs_160 setupColors_2 ..
qed

text \<open>
  Claim C5. For a buffer of exactly \<open>4 * w * h\<close> bytes and a cube of the grid with
  \<open>gy = 0\<close>, every index \<open>(x + w * y) * 4\<close> (plus a channel) that \<^verbatim>\<open>getAverage\<close> computes has
  \<open>y \<ge> h\<close> and lies past the end of the buffer, the three sums and \<^verbatim>\<open>val\<close> are \<open>NaN\<close>, and
  the sampler writes the fallback: the colour of index 1, the height \<open>0.11\<close> and the depth
  offset \<open>0.055\<close> (the doubles that these two literals denote), whatever the buffer holds.
\<close>

theorem top_row_fallback:
  assumes "0 < sz" and "setupCubes (reset sz vw vh s) = Some s'" and "c \<in> set (cubes s')"
    and "position_y c = 0" and "length pixels = 4 * w s' * h s'"
  shows "(\<forall>x y k. int (w s') - int (position_x c) * int sz \<le> x
            \<and> int (h s') - int (position_y c) * int sz \<le> y \<and> 0 \<le> k
          \<longrightarrow> int (h s') \<le> y \<and> int (length pixels) \<le> (x + int (w s') * y) * 4 + k
            \<and> array_get pixels ((x + int (w s') * y) * 4 + k) = None)
     \<and> getAverage_xs sz (w s') pixels (int (w s') - int (position_x c) * int sz)
          (int (h s') - int (position_y c) * int sz) (int (w s') - int (position_x c) * int sz)
          (Num 0, Num 0, Num 0) = (NaN, NaN, NaN)
     \<and> getAverage_val sz (w s') pixels (int (w s') - int (position_x c) * int sz)
          (int (h s') - int (position_y c) * int sz) = NaN
     \<and> pixelate_cube sz (w s') (h s') setupColors pixels c =
          c\<lparr>material_color := Some (Rgb 1 1 1), scale_z := js_literal (11 / 100),
            position_z := js_literal (11 / 200)\<rparr>"
proof -
  let ?W = "w s'" and ?H = "h s'"
  let ?px0 = "int ?W - int (position_x c) * int sz"
  have wh: "?W = unat vw"
    using setupCubes_globals(1) [OF assms(2)] by (simp add: reset_globals)
  from mem_cubes_imp [OF assms(1,2,3)] obtain gx gy where c: "c = new_cube gx gy"
    and gx: "gx * sz < unat vw"
    by blast
  from gx have "int (gx * sz) < int ?W" unfolding wh by (simp only: of_nat_less_iff)
  then have px0: "0 \<le> ?px0" using c by (simp add: new_cube_def)
  have py0: "int ?H - int (position_y c) * int sz = int ?H" using assms(4) by simp
  have past: "int ?H \<le> y \<and> int (length pixels) \<le> (x + int ?W * y) * 4 + k
      \<and> array_get pixels ((x + int ?W * y) * 4 + k) = None"
    if "?px0 \<le> x" and "int ?H \<le> y" and "0 \<le> k" for x y k
  proof -
    from that(1) px0 have x: "0 \<le> x" by simp
    have "int ?W * int ?H \<le> int ?W * y" using that(2) by (intro mult_left_mono) simp_all
    then have "int (length pixels) \<le> (x + int ?W * y) * 4 + k" using x that(3) assms(5) by simp
    with that(2) show ?thesis by (simp add: array_get_def)
  qed
  have first: "array_get pixels ((?px0 + int ?W * int ?H) * 4 + k) = None" if "0 \<le> k" for k
    using past [of ?px0 "int ?H" k] that by simp
  have sums: "getAverage_xs sz ?W pixels ?px0 (int ?H) ?px0 (Num 0, Num 0, Num 0) = (NaN, NaN, NaN)"
    using assms(1) first [of 0] first [of 1] first [of 2]
    by (intro getAverage_xs_first_all_undefined) simp_all
  then have val: "getAverage_val sz ?W pixels ?px0 (int ?H - int (position_y c) * int sz) = NaN"
    unfolding py0 by (simp add: getAverage_val_def)
  show ?thesis using past sums val pixelate_cube_fallback [OF val] unfolding py0 by blast
qed

theorem top_row_fallback_witness:
  "(0::nat) < 8
     \<and> (\<exists>s'. setupCubes (reset 8 640 480 start) = Some s' \<and> w s' = 640 \<and> h s' = 480
          \<and> new_cube 3 0 \<in> set (cubes s') \<and> position_y (new_cube 3 0) = 0
          \<and> length (replicate 1228800 (200 :: 8 word)) = 4 * w s' * h s'
          \<and> getAverage_val 8 (w s') (replicate 1228800 200)
               (int (w s') - int (position_x (new_cube 3 0)) * int 8)
               (int (h s') - int (position_y (new_cube 3 0)) * int 8) = NaN
          \<and> pixelate_cube 8 (w s') (h s') setupColors (replicate 1228800 200) (new_cube 3 0) =
               (new_cube 3 0)\<lparr>material_color := Some (Rgb 1 1 1), scale_z := js_literal (11 / 100),
                 position_z := js_literal (11 / 200)\<rparr>)"
proof -
  define s' where
    "s' = (reset 8 640 480 start)\<lparr>cubes := concat (map (\<lambda>x. map (new_cube x) [0 ..< 60]) [0 ..< 80])\<rparr>"
  have g: "setupCubes (reset 8 640 480 start) = Some s'" unfolding s'_def by (rule grid_640_480)
  have "cubes s' = concat (map (\<lambda>x. map (new_cube x) [0 ..< 60]) [0 ..< 80])"
    unfolding s'_def by simp
  moreover have "new_cube 3 0 \<in> set (concat (map (\<lambda>x. map (new_cube x) [0 ..< 60]) [0 ..< 80]))"
    by (rule mem_grid) simp_all
  ultimately have m: "new_cube 3 0 \<in> set (cubes s')" by simp
  have wh: "w s' = 640" "h s' = 480" unfolding s'_def by (simp_all add: reset_def)
  have z: "(0::nat) < 8" by simp
  have p: "position_y (new_cube 3 0) = 0" by (simp add: new_cube_def)
  have len: "length (replicate 1228800 (200 :: 8 word)) = 4 * w s' * h s'" unfolding wh by simp
  from top_row_fallback [OF z g m p len]
  have "getAverage_val 8 (w s') (replicate 1228800 200)
               (int (w s') - int (position_x (new_cube 3 0)) * int 8)
               (int (h s') - int (position_y (new_cube 3 0)) * int 8) = NaN"
    and "pixelate_cube 8 (w s') (h s') setupColors (replicate 1228800 200) (new_cube 3 0) =
               (new_cube 3 0)\<lparr>material_color := Some (Rgb 1 1 1), scale_z := js_literal (11 / 100),
                 position_z := js_literal (11 / 200)\<rparr>"
    by blast+
  with z g wh m p len show ?thesis by (intro conjI exI [of _ s'])
qed

text \<open>
  Claim C6. Whenever the value \<^verbatim>\<open>val\<close> that \<^verbatim>\<open>getAverage\<close> computes is \<open>NaN\<close> (the only
  non-finite value that sums of bytes and \<^verbatim>\<open>undefined\<close> can produce), \<^verbatim>\<open>getAverage\<close>
  returns 1 and \<^verbatim>\<open>pixelate\<close> writes the colour of index 1, the height \<open>0.11\<close> and the depth
  offset \<open>0.055\<close> (the doubles that these two literals denote); the sampler is a total
  function and has no error result.
\<close>

theorem nan_fallback:
  assumes "getAverage_val sz W pixels (int W - int (position_x c) * int sz)
      (int H - int (position_y c) * int sz) = NaN"
  shows "getAverage sz W pixels (int W - int (position_x c) * int sz)
      (int H - int (position_y c) * int sz) = Num 1
    \<and> pixelate_cube sz W H setupColors pixels c =
        c\<lparr>material_color := Some (Rgb 1 1 1), scale_z := js_literal (11 / 100),
          position_z := js_literal (11 / 200)\<rparr>"
  using assms pixelate_cube_fallback [OF assms] by (simp add: getAverage_def)

theorem nan_fallback_witness:
  "getAverage_val 8 640 (replicate 1228800 200) (int 640 - int (position_x (new_cube 0 0)) * int 8)
      (int 480 - int (position_y (new_cube 0 0)) * int 8) = NaN
    \<and> getAverage 8 640 (replicate 1228800 200) (int 640 - int (position_x (new_cube 0 0)) * int 8)
      (int 480 - int (position_y (new_cube 0 0)) * int 8) = Num 1
    \<and> pixelate_cube 8 640 480 setupColors (replicate 1228800 200) (new_cube 0 0) =
        (new_cube 0 0)\<lparr>material_color := Some (Rgb 1 1 1), scale_z := js_literal (11 / 100),
          position_z := js_literal (11 / 200)\<rparr>"
proof -
  have "getAverage_val 8 640 (replicate 1228800 200) 640 480 = NaN"
    by (rule getAverage_val_first_undefined) (simp_all add: array_get_def)
  then have h: "getAverage_val 8 640 (replicate 1228800 200) (int 640 - int (position_x (new_cube 0 0)) * int 8)
      (int 480 - int (position_y (new_cube 0 0)) * int 8) = NaN"
    by (simp add: new_cube_def)
  from nan_fallback [OF h] h show ?thesis by (intro conjI) simp_all
qed

text \<open>
  Claim C7, amended. For a cube whose window of 8 by 8 pixels lies inside the frame and
  has every red, green and blue value equal to 255, \<^verbatim>\<open>getAverage\<close> returns
  \<open>254.99999999999997\<close> and the sampler writes the colour of index 255, the height
  \<open>25.509999999999998\<close> and the depth offset \<open>12.754999999999999\<close>: the doubles
  \<open>8972014882652159 / 2 ^ 45\<close>, \<open>7180426655888834 / 2 ^ 48\<close> and \<open>7180426655888834 / 2 ^ 49\<close>.
\<close>

theorem saturated_region_output:
  assumes "1 \<le> position_x c" and "position_x c * 8 \<le> W"
    and "1 \<le> position_y c" and "position_y c * 8 \<le> H" and "length pixels = 4 * W * H"
    and "\<forall>x y k. W - position_x c * 8 \<le> x \<and> x < W - position_x c * 8 + 8
          \<and> H - position_y c * 8 \<le> y \<and> y < H - position_y c * 8 + 8 \<and> k < 3
          \<longrightarrow> pixels ! ((x + W * y) * 4 + k) = 255"
  shows "getAverage 8 W pixels (int W - int (position_x c) * int 8)
       (int H - int (position_y c) * int 8) = Num (8972014882652159 / 2 ^ 45)
     \<and> pixelate_cube 8 W H setupColors pixels c =
         c\<lparr>material_color := Some (Rgb 255 255 255), scale_z := Num (7180426655888834 / 2 ^ 48),
           position_z := Num (7180426655888834 / 2 ^ 49)\<rparr>"
proof -
  have sz: "(0::nat) < 8" "255 * (8 * 8) < (2::nat) ^ 53" by simp_all
  have "getAverage 8 W pixels (int W - int (position_x c) * int 8)
      (int H - int (position_y c) * int 8) =
    spec_luminance 8 W pixels (W - position_x c * 8) (H - position_y c * 8)"
    unfolding window_origin(2) [OF assms(1,2)] window_origin(2) [OF assms(3,4)]
    using sz window_origin(1) [OF assms(1,2)] window_origin(1) [OF assms(3,4)] assms(5)
    by (rule getAverage_in_bounds)
  then have "getAverage 8 W pixels (int W - int (position_x c) * int 8)
      (int H - int (position_y c) * int 8) = Num (8972014882652159 / 2 ^ 45)"
    unfolding spec_luminance_saturated [OF assms(6)] .
  moreover note pixelate_cube_saturated [OF assms]
  ultimately show ?thesis by (intro conjI)
qed

theorem saturated_region_output_witness:
  "1 \<le> position_x (new_cube 1 1) \<and> position_x (new_cube 1 1) * 8 \<le> 640
     \<and> 1 \<le> position_y (new_cube 1 1) \<and> position_y (new_cube 1 1) * 8 \<le> 480
     \<and> length (replicate 1228800 (255 :: 8 word)) = 4 * 640 * 480
     \<and> getAverage 8 640 (replicate 1228800 255) (int 640 - int (position_x (new_cube 1 1)) * int 8)
          (int 480 - int (position_y (new_cube 1 1)) * int 8) = Num (8972014882652159 / 2 ^ 45)
     \<and> pixelate_cube 8 640 480 setupColors (replicate 1228800 255) (new_cube 1 1) =
          (new_cube 1 1)\<lparr>material_color := Some (Rgb 255 255 255),
             scale_z := Num (7180426655888834 / 2 ^ 48),
             position_z := Num (7180426655888834 / 2 ^ 49)\<rparr>"
proof -
  have h: "1 \<le> position_x (new_cube 1 1)" "position_x (new_cube 1 1) * 8 \<le> 640"
    "1 \<le> position_y (new_cube 1 1)" "position_y (new_cube 1 1) * 8 \<le> 480"
    "length (replicate 1228800 (255 :: 8 word)) = 4 * 640 * 480"
    by (simp_all add: new_cube_def)
  have a: "\<forall>x y k. 640 - position_x (new_cube 1 1) * 8 \<le> x
          \<and> x < 640 - position_x (new_cube 1 1) * 8 + 8
          \<and> 480 - position_y (new_cube 1 1) * 8 \<le> y
          \<and> y < 480 - position_y (new_cube 1 1) * 8 + 8 \<and> k < 3
          \<longrightarrow> replicate 1228800 (255 :: 8 word) ! ((x + 640 * y) * 4 + k) = 255"
    by (simp add: new_cube_def)
  from saturated_region_output [OF h a] h show ?thesis by (intro conjI) simp_all
qed

text \<open>
  Claim C7 as stated fails on an all-white 640 by 480 frame: the cube at \<open>(1, 1)\<close> gets
  the height \<open>25.509999999999998\<close> and the depth offset \<open>12.754999999999999\<close>, which are
  not the doubles \<open>25.6\<close> and \<open>12.8\<close>.
\<close>

theorem saturated_region_height_counterexample:
  "scale_z (pixelate_cube 8 640 480 setupColors (replicate 1228800 255) (new_cube 1 1)) =
      Num (7180426655888834 / 2 ^ 48)
     \<and> js_literal (256 / 10) = Num (7205759403792794 / 2 ^ 48)
     \<and> scale_z (pixelate_cube 8 640 480 setupColors (replicate 1228800 255) (new_cube 1 1)) \<noteq>
      js_literal (256 / 10)
     \<and> position_z (pixelate_cube 8 640 480 setupColors (replicate 1228800 255) (new_cube 1 1)) =
      Num (7180426655888834 / 2 ^ 49)
     \<and> js_literal (128 / 10) = Num (7205759403792794 / 2 ^ 49)
     \<and> position_z (pixelate_cube 8 640 480 setupColors (replicate 1228800 255) (new_cube 1 1)) \<noteq>
      js_literal (128 / 10)"
proof -
  have "pixelate_cube 8 640 480 setupColors (replicate 1228800 255) (new_cube 1 1) =
      (new_cube 1 1)\<lparr>material_color := Some (Rgb 255 255 255),
         scale_z := Num (7180426655888834 / 2 ^ 48),
         position_z := Num (7180426655888834 / 2 ^ 49)\<rparr>"
    by (rule pixelate_cube_saturated) (simp_all add: new_cube_def)
  then show ?thesis unfolding literal_25_6 literal_12_8 by simp
qed

text \<open>
  Claim C8. For a window inside the frame and two buffers \<open>A\<close> and \<open>B\<close> of \<open>4 * W * H\<close> bytes
  such that every red, green and blue byte of the window in \<open>B\<close> is at least the byte of
  \<open>A\<close>, the luminance \<^verbatim>\<open>getAverage\<close> returns on \<open>B\<close> is at least the one it returns on \<open>A\<close>.
\<close>

theorem luminance_monotone:
  assumes "0 < sz" and "px0 + sz \<le> W" and "py0 + sz \<le> H"
    and "length A = 4 * W * H" and "length B = 4 * W * H"
    and "\<forall>x y k. px0 \<le> x \<and> x < px0 + sz \<and> py0 \<le> y \<and> y < py0 + sz \<and> k < 3
          \<longrightarrow> A ! ((x + W * y) * 4 + k) \<le> B ! ((x + W * y) * 4 + k)"
  shows "js_le (getAverage sz W A (int px0) (int py0)) (getAverage sz W B (int px0) (int py0))"
proof -
  note v = getAverage_val_le [OF assms]
  from num_le_not_NaN [OF v] num_le_js_le [OF v] show ?thesis by (simp add: getAverage_def)
qed

theorem luminance_monotone_witness:
  "(0::nat) < 8 \<and> (632::nat) + 8 \<le> 640 \<and> (472::nat) + 8 \<le> 480
     \<and> length (replicate 1228800 (10 :: 8 word)) = 4 * 640 * 480
     \<and> length (replicate 1228800 (20 :: 8 word)) = 4 * 640 * 480
     \<and> js_le (getAverage 8 640 (replicate 1228800 10) (int 632) (int 472))
          (getAverage 8 640 (replicate 1228800 20) (int 632) (int 472))"
proof -
  have h: "(0::nat) < 8" "(632::nat) + 8 \<le> 640" "(472::nat) + 8 \<le> 480"
    "length (replicate 1228800 (10 :: 8 word)) = 4 * 640 * 480"
    "length (replicate 1228800 (20 :: 8 word)) = 4 * 640 * 480"
    by simp_all
  have a: "\<forall>x y k. 632 \<le> x \<and> x < 632 + 8 \<and> 472 \<le> y \<and> y < 472 + 8 \<and> k < 3
          \<longrightarrow> replicate 1228800 (10 :: 8 word) ! ((x + 640 * y) * 4 + k)
              \<le> replicate 1228800 (20 :: 8 word) ! ((x + 640 * y) * 4 + k)"
    by simp
  from luminance_monotone [OF h a] h show ?thesis by (intro conjI)
qed

text \<open>
  Claim C9. Running the sampler a second time on the same buffer and the cube it has
  just updated writes the same colour, height and depth offset again.
\<close>

theorem sampler_idempotent:
  "pixelate_cube sz W H table pixels (pixelate_cube sz W H table pixels c) =
     pixelate_cube sz W H table pixels c"
  by (simp add: pixelate_cube_def Let_def)

text \<open>
  Claim C10. The pass of \<^verbatim>\<open>sketch.js\<close> does touch state other than the three attributes
  of the cubes. On an all-white 640 by 480 frame drawn on the canvas of the grid built
  for that video, the fill style of the 2D context is the default before the pass and
  red after it, and the green byte of the first pixel of the canvas is 255 before the
  pass and 0 after it: \<^verbatim>\<open>pixelate\<close> paints a red rectangle of 50 by 50 pixels, which its
  comment calls a debugging aid and which the copies of \<^verbatim>\<open>pixelate\<close> in \<^verbatim>\<open>index.html\<close>
  do not have.
\<close>

theorem pixelate_paints_canvas:
  "setupCubes (reset 8 640 480 start) \<noteq> None
   \<and> fillStyle (canvas (drawImage (replicate 1228800 255) (the (setupCubes (reset 8 640 480 start))))) =
      ''#000000''
   \<and> bitmap (canvas (drawImage (replicate 1228800 255) (the (setupCubes (reset 8 640 480 start))))) ! 1 =
      255
   \<and> map_sum id (\<lambda>s'. fillStyle (canvas s'))
        (pixelate 8 (drawImage (replicate 1228800 255) (the (setupCubes (reset 8 640 480 start))))) =
      Inr ''red''
   \<and> map_sum id (\<lambda>s'. bitmap (canvas s') ! 1)
        (pixelate 8 (drawImage (replicate 1228800 255) (the (setupCubes (reset 8 640 480 start))))) =
      Inr 0"
proof -
  define s0 where
    "s0 = (reset 8 640 480 start)\<lparr>cubes := concat (map (\<lambda>x. map (new_cube x) [0 ..< 60]) [0 ..< 80])\<rparr>"
  have g: "setupCubes (reset 8 640 480 start) = Some s0" unfolding s0_def by (rule grid_640_480)
  let ?s = "drawImage (replicate 1228800 255) s0"
  have h: "0 < w ?s" "0 < h ?s"
    unfolding s0_def by (simp_all add: drawImage_def reset_def)
  have c: "canvas ?s = \<lparr>canvas_width = 640, canvas_height = 480, fillStyle = ''#000000'',
      bitmap = replicate 1228800 255\<rparr>"
    unfolding s0_def by (simp add: drawImage_def reset_def canvas_resize_def)
  show ?thesis
    unfolding g option.sel pixelate_ok [OF h] by (simp add: c fillRect_def style_rgba_def)
qed

end
